theory Spec2Isabelle
  imports Main
begin

section \<open>Python values shared by all variants of the engine\<close>

text \<open>
  The repository is Python. Exceptions are values of \<open>py_error\<close>; a function that can
  raise returns \<open>py_error + 'a\<close> with \<open>Inl\<close> for the exception.
\<close>

datatype py_error = IndexError | ValueError

text \<open>
  The module-level \<open>random\<close> generator is an explicit infinite sequence of draws,
  \<open>rs 0, rs 1, ...\<close>. Every call of \<open>random.choice\<close>, \<open>random.randint\<close> or
  \<open>random.random\<close> consumes the first draw; each outcome the Python call can produce
  is produced by some draw.
\<close>

type_synonym rng = "nat \<Rightarrow> nat"

definition rng_head :: "rng \<Rightarrow> nat" where
  "rng_head rs = rs 0"

definition rng_tail :: "rng \<Rightarrow> rng" where
  "rng_tail rs = (\<lambda>i. rs (Suc i))"

text \<open>The sequence that starts with the draws \<open>xs\<close> and continues with zeros.\<close>

fun draws :: "nat list \<Rightarrow> rng" where
  "draws [] i = 0"
| "draws (x # xs) 0 = x"
| "draws (x # xs) (Suc i) = draws xs i"

definition py_choice :: "'a list \<Rightarrow> rng \<Rightarrow> py_error + ('a \<times> rng)" where
  "py_choice xs rs =
     (if xs = [] then Inl IndexError
      else Inr (xs ! (rng_head rs mod length xs), rng_tail rs))"

definition py_randint :: "int \<Rightarrow> int \<Rightarrow> rng \<Rightarrow> py_error + (int \<times> rng)" where
  "py_randint a b rs =
     (if b < a then Inl ValueError
      else Inr (a + int (rng_head rs mod nat (b - a + 1)), rng_tail rs))"

text \<open>
  Python list indexing: a negative index counts from the end, anything else out of range
  raises \<open>IndexError\<close>. \<open>py_index n i\<close> is the position that index \<open>i\<close> denotes in a
  list of length \<open>n\<close>.
\<close>

definition py_index :: "nat \<Rightarrow> int \<Rightarrow> nat option" where
  "py_index n i =
     (if 0 \<le> i \<and> i < int n then Some (nat i)
      else if - int n \<le> i \<and> i < 0 then Some (nat (int n + i))
      else None)"

text \<open>ASCII \<open>str.lower\<close> and \<open>str.strip\<close>.\<close>

definition lower_char :: "char \<Rightarrow> char" where
  "lower_char c =
     (case map_of (zip ''ABCDEFGHIJKLMNOPQRSTUVWXYZ'' ''abcdefghijklmnopqrstuvwxyz'') c of
        Some d \<Rightarrow> d
      | None \<Rightarrow> c)"

definition py_lower :: "string \<Rightarrow> string" where
  "py_lower s = map lower_char s"

definition is_space :: "char \<Rightarrow> bool" where
  "is_space c = (c \<in> set [CHR '' '', CHR 0x09, CHR 0x0A, CHR 0x0B, CHR 0x0C, CHR 0x0D])"

definition py_strip :: "string \<Rightarrow> string" where
  "py_strip s = rev (dropWhile is_space (rev (dropWhile is_space s)))"

section \<open>scripts/syllaflow\_algorithm.py: SyllableDetector\<close>

record SyllableSegment =
  syl_text :: string
  start_pos :: nat
  end_pos :: nat
  stress_level :: nat

definition vowel_groups :: "char list" where
  "vowel_groups = ''aeiouy''"

text \<open>
  \<open>_algorithmic_syllable_detection\<close>. The state of the \<open>while i < len(word)\<close> loop is
  \<open>i\<close>, \<open>syllables\<close>, \<open>current_syllable\<close> and \<open>vowel_count\<close>; the inner
  \<open>while\<close> collects the run of non-vowels that starts at \<open>i + 1\<close>.
\<close>

function detect_loop ::
  "string \<Rightarrow> nat \<Rightarrow> SyllableSegment list \<Rightarrow> string \<Rightarrow> nat \<Rightarrow> SyllableSegment list \<times> string"
where
  "detect_loop word i syllables current_syllable vowel_count =
     (if i < length word then
        (let char = word ! i;
             current_syllable1 = current_syllable @ [char]
         in if lower_char char \<in> set vowel_groups then
              (let vowel_count1 = vowel_count + 1;
                   consonant_cluster =
                     takeWhile (\<lambda>c. lower_char c \<notin> set vowel_groups) (drop (i + 1) word);
                   j = i + 1 + length consonant_cluster;
                   split_point = length consonant_cluster div 2
               in if i + 1 < length word
                     \<and> lower_char (word ! (i + 1)) \<notin> set vowel_groups \<and> vowel_count1 > 0
                     \<and> length consonant_cluster > 1
                  then
                    (let current_syllable2 = current_syllable1 @ take split_point consonant_cluster;
                         start = length (concat (map syl_text syllables));
                         segments = \<lparr>syl_text = current_syllable2, start_pos = start,
                                      end_pos = start + length current_syllable2,
                                      stress_level = 1\<rparr>
                     in detect_loop word (j - length consonant_cluster + split_point - 1 + 1)
                          (syllables @ [segments]) (drop split_point consonant_cluster) 0)
                  else detect_loop word (i + 1) syllables current_syllable1 vowel_count1)
            else detect_loop word (i + 1) syllables current_syllable1 vowel_count)
      else (syllables, current_syllable))"
  by pat_completeness auto
termination
  by (relation "measure (\<lambda>(w, i, _, _, _). length w - i)") (auto simp: Let_def)

declare detect_loop.simps [simp del]

definition algorithmic_syllable_detection :: "string \<Rightarrow> SyllableSegment list" where
  "algorithmic_syllable_detection word =
     (let (syllables, current_syllable) = detect_loop word 0 [] [] 0;
          syllables1 =
            (if current_syllable \<noteq> [] then
               (let start = length (concat (map syl_text syllables))
                in syllables @ [\<lparr>syl_text = current_syllable, start_pos = start,
                                  end_pos = start + length current_syllable,
                                  stress_level = (if length syllables = 0 then 2 else 1)\<rparr>])
             else syllables)
      in if syllables1 \<noteq> [] then syllables1
         else [\<lparr>syl_text = word, start_pos = 0, end_pos = length word, stress_level = 2\<rparr>])"

text \<open>
  The curated table \<open>mindfulness_words\<close>, reduced to the field the engine reads
  (\<open>"syllables"\<close>); the other fields are display text.
\<close>

definition mindfulness_words :: "(string \<times> string list) list" where
  "mindfulness_words =
     [(''meditation'', [''med'', ''i'', ''ta'', ''tion'']),
      (''compassion'', [''com'', ''pas'', ''sion'']),
      (''awareness'', [''a'', ''ware'', ''ness'']),
      (''gratitude'', [''grat'', ''i'', ''tude'']),
      (''serenity'', [''se'', ''ren'', ''i'', ''ty'']),
      (''wisdom'', [''wis'', ''dom'']),
      (''presence'', [''pres'', ''ence'']),
      (''equanimity'', [''e'', ''qua'', ''nim'', ''i'', ''ty'']),
      (''mindfulness'', [''mind'', ''ful'', ''ness'']),
      (''tranquility'', [''tran'', ''quil'', ''i'', ''ty''])]"

fun db_segments :: "string list \<Rightarrow> nat \<Rightarrow> nat \<Rightarrow> SyllableSegment list" where
  "db_segments [] i pos = []"
| "db_segments (syll_text # rest) i pos =
     \<lparr>syl_text = syll_text, start_pos = pos, end_pos = pos + length syll_text,
      stress_level = (if i = 0 then 2 else 1)\<rparr>
     # db_segments rest (i + 1) (pos + length syll_text)"

definition detect_syllables :: "string \<Rightarrow> SyllableSegment list" where
  "detect_syllables word0 =
     (let word = py_strip (py_lower word0)
      in case map_of mindfulness_words word of
           Some syllable_texts \<Rightarrow> db_segments syllable_texts 0 0
         | None \<Rightarrow> algorithmic_syllable_detection word)"

section \<open>scripts/mineru\_integration\_module.py: SyllableProcessor\<close>

definition consonant_clusters :: "string list" where
  "consonant_clusters =
     [''bl'', ''br'', ''cl'', ''cr'', ''dr'', ''fl'', ''fr'', ''gl'', ''gr'', ''pl'', ''pr'',
      ''sc'', ''sk'', ''sl'', ''sm'', ''sn'', ''sp'', ''st'', ''sw'', ''tr'', ''tw'', ''th'',
      ''ch'', ''sh'', ''wh'', ''ph'', ''gh'']"

definition vowels :: "char set" where
  "vowels = set ''aeiouAEIOU''"

text \<open>\<open>any(char in self.vowels for char in syllable)\<close>.\<close>

definition has_vowel :: "string \<Rightarrow> bool" where
  "has_vowel s = (\<exists>char \<in> set s. char \<in> vowels)"

text \<open>The slice \<open>word[a:b]\<close> for \<open>0 \<le> a \<le> b\<close>.\<close>

definition py_slice :: "'a list \<Rightarrow> nat \<Rightarrow> nat \<Rightarrow> 'a list" where
  "py_slice xs a b = take (b - a) (drop a xs)"

definition mineru_is_syllable_boundary :: "string \<Rightarrow> nat \<Rightarrow> bool" where
  "mineru_is_syllable_boundary word position =
     (if position + 1 \<ge> length word then False
      else
        (let current = word ! position; next_char = word ! (position + 1)
         in if current \<in> vowels \<and> next_char \<notin> vowels then
              (if position + 2 < length word
                  \<and> py_slice word (position + 1) (position + 3) \<in> set consonant_clusters
               then False
               else True)
            else False))"

function mineru_loop :: "string \<Rightarrow> nat \<Rightarrow> string list \<Rightarrow> string \<Rightarrow> string list \<times> string" where
  "mineru_loop word i syllables current_syllable =
     (if i < length word then
        (let current_syllable1 = current_syllable @ [word ! i]
         in if mineru_is_syllable_boundary word i
            then mineru_loop word (i + 1) (syllables @ [current_syllable1]) []
            else mineru_loop word (i + 1) syllables current_syllable1)
      else (syllables, current_syllable))"
  by pat_completeness auto
termination
  by (relation "measure (\<lambda>(w, i, _, _). length w - i)") auto

declare mineru_loop.simps [simp del]

text \<open>
  The tail shared by both \<open>split_syllables\<close>: characters left in \<open>current_syllable\<close>
  are appended to the last syllable (\<open>syllables[-1] += current_syllable\<close>), or become
  the only syllable.
\<close>

definition add_remaining :: "string list \<Rightarrow> string \<Rightarrow> string list" where
  "add_remaining syllables current_syllable =
     (if current_syllable \<noteq> [] then
        (if syllables \<noteq> [] then butlast syllables @ [last syllables @ current_syllable]
         else syllables @ [current_syllable])
      else syllables)"

definition mineru_split_syllables :: "string \<Rightarrow> string list" where
  "mineru_split_syllables word0 =
     (let word = py_strip (py_lower word0)
      in if length word \<le> 2 then [word]
         else
           (let (syllables, current_syllable) = mineru_loop word 0 [] [];
                syllables1 = add_remaining syllables current_syllable
            in if syllables1 \<noteq> [] then syllables1 else [word]))"

section \<open>scripts/advanced\_word\_extraction\_system.py: AdvancedSyllableProcessor\<close>

definition consonants :: "char set" where
  "consonants = set ''bcdfghjklmnpqrstvwxyzBCDFGHJKLMNPQRSTVWXYZ''"

definition adv_consonant_clusters :: "string set" where
  "adv_consonant_clusters =
     set [''bl'', ''br'', ''cl'', ''cr'', ''dr'', ''fl'', ''fr'', ''gl'', ''gr'', ''pl'', ''pr'',
          ''sc'', ''sk'', ''sl'', ''sm'', ''sn'', ''sp'', ''st'', ''sw'', ''tr'', ''tw'',
          ''th'', ''ch'', ''sh'', ''wh'', ''ph'', ''gh'', ''ck'', ''ng'']"

definition adv_is_syllable_boundary :: "string \<Rightarrow> nat \<Rightarrow> bool" where
  "adv_is_syllable_boundary word position =
     (if position + 1 \<ge> length word then False
      else
        (let current = word ! position; next_char = word ! (position + 1)
         in if current \<in> vowels \<and> next_char \<in> consonants then
              (if position + 2 < length word
                  \<and> py_lower (py_slice word (position + 1) (position + 3)) \<in> adv_consonant_clusters
               then False
               else if position + 2 < length word \<and> word ! (position + 1) = word ! (position + 2)
               then True
               else True)
            else if current \<in> consonants \<and> next_char \<in> vowels
                    \<and> position > 0 \<and> word ! (position - 1) \<in> vowels
            then True
            else False))"

definition split_consonant_le :: "string \<Rightarrow> string list" where
  "split_consonant_le word =
     (if length word \<le> 3 then [word]
      else (let split_point = length word - 3
            in [take split_point word, drop split_point word]))"

text \<open>
  \<open>_post_process_syllables\<close>. The \<open>for i, syllable in enumerate(syllables)\<close> loop
  reads the list it mutates (\<open>syllables[i + 1] = syllable + syllables[i + 1]\<close>), so the
  model carries the rest of the list; \<open>processed[-1]\<close> on an empty list raises.
\<close>

fun post_process_loop :: "string list \<Rightarrow> nat \<Rightarrow> string list \<Rightarrow> py_error + string list" where
  "post_process_loop [] i processed = Inr processed"
| "post_process_loop (syllable # rest) i processed =
     (if \<not> has_vowel syllable then
        (if i > 0 then
           (if processed = [] then Inl IndexError
            else post_process_loop rest (i + 1)
                   (butlast processed @ [last processed @ syllable]))
         else if rest \<noteq> [] then
           post_process_loop ((syllable @ hd rest) # tl rest) (i + 1) processed
         else post_process_loop rest (i + 1) (processed @ [syllable]))
      else post_process_loop rest (i + 1) (processed @ [syllable]))"

definition post_process_syllables :: "string list \<Rightarrow> py_error + string list" where
  "post_process_syllables syllables =
     (if syllables = [] then Inr syllables else post_process_loop syllables 0 [])"

function adv_loop :: "string \<Rightarrow> nat \<Rightarrow> string list \<Rightarrow> string \<Rightarrow> string list \<times> string" where
  "adv_loop word i syllables current_syllable =
     (if i < length word then
        (let current_syllable1 = current_syllable @ [word ! i]
         in if i + 1 < length word \<and> adv_is_syllable_boundary word i
            then adv_loop word (i + 1) (syllables @ [current_syllable1]) []
            else adv_loop word (i + 1) syllables current_syllable1)
      else (syllables, current_syllable))"
  by pat_completeness auto
termination
  by (relation "measure (\<lambda>(w, i, _, _). length w - i)") auto

declare adv_loop.simps [simp del]

definition adv_split_syllables :: "string \<Rightarrow> py_error + string list" where
  "adv_split_syllables word0 =
     (let word = py_strip (py_lower word0)
      in if length word \<le> 2 then Inr [word]
         else if py_slice word (length word - 2) (length word) = ''le'' \<and> length word > 3
                 \<and> word ! (length word - 3) \<in> consonants
         then Inr (split_consonant_le word)
         else
           (let (syllables, current_syllable) = adv_loop word 0 [] []
            in case post_process_syllables (add_remaining syllables current_syllable) of
                 Inl e \<Rightarrow> Inl e
               | Inr syllables1 \<Rightarrow> Inr (if syllables1 \<noteq> [] then syllables1 else [word])))"

section \<open>Letter grids\<close>

text \<open>
  A grid is a list of rows of strings; a cell holds one character, or the empty string
  where the engine has written nothing yet. \<open>grid[row][col]\<close> follows Python's
  indexing.
\<close>

type_synonym grid = "string list list"

definition grid_get :: "grid \<Rightarrow> int \<Rightarrow> int \<Rightarrow> py_error + string" where
  "grid_get g row col =
     (case py_index (length g) row of
        None \<Rightarrow> Inl IndexError
      | Some r \<Rightarrow>
          (case py_index (length (g ! r)) col of
             None \<Rightarrow> Inl IndexError
           | Some c \<Rightarrow> Inr (g ! r ! c)))"

definition grid_set :: "grid \<Rightarrow> int \<Rightarrow> int \<Rightarrow> string \<Rightarrow> py_error + grid" where
  "grid_set g row col v =
     (case py_index (length g) row of
        None \<Rightarrow> Inl IndexError
      | Some r \<Rightarrow>
          (case py_index (length (g ! r)) col of
             None \<Rightarrow> Inl IndexError
           | Some c \<Rightarrow> Inr (g[r := (g ! r)[c := v]])))"

definition py_range :: "int \<Rightarrow> int list" where
  "py_range n = map int [0..<nat n]"

definition empty_grid :: "int \<Rightarrow> int \<Rightarrow> grid" where
  "empty_grid w h = map (\<lambda>_. map (\<lambda>_. []) (py_range w)) (py_range h)"

text \<open>
  The nested loops \<open>for row in range(h): for col in range(w)\<close> visit the cells in
  row-major order.
\<close>

definition range_cells :: "int \<Rightarrow> int \<Rightarrow> (int \<times> int) list" where
  "range_cells h w = concat (map (\<lambda>row. map (\<lambda>col. (row, col)) (py_range w)) (py_range h))"

text \<open>
  Every engine fills the grid with the same loop: a cell equal to the empty marker is
  overwritten with a freshly drawn letter, any other cell is skipped. The engines differ
  in the marker and in how the letter is drawn (\<open>pick\<close>).
\<close>

fun fill_cells ::
  "string \<Rightarrow> (rng \<Rightarrow> py_error + (string \<times> rng)) \<Rightarrow> grid \<Rightarrow> (int \<times> int) list \<Rightarrow> rng
     \<Rightarrow> py_error + (grid \<times> rng)"
where
  "fill_cells marker pick g [] rs = Inr (g, rs)"
| "fill_cells marker pick g ((row, col) # rest) rs =
     (case grid_get g row col of
        Inl e \<Rightarrow> Inl e
      | Inr cell \<Rightarrow>
          (if cell = marker then
             (case pick rs of
                Inl e \<Rightarrow> Inl e
              | Inr (letter, rs1) \<Rightarrow>
                  (case grid_set g row col letter of
                     Inl e \<Rightarrow> Inl e
                   | Inr g1 \<Rightarrow> fill_cells marker pick g1 rest rs1))
           else fill_cells marker pick g rest rs))"

text \<open>\<open>random.choice(letters)\<close> for a string of letters: a one-character string.\<close>

definition pick_letter :: "string \<Rightarrow> rng \<Rightarrow> py_error + (string \<times> rng)" where
  "pick_letter letters rs =
     (case py_choice letters rs of Inl e \<Rightarrow> Inl e | Inr (ch, rs1) \<Rightarrow> Inr ([ch], rs1))"

section \<open>scripts/syllaflow\_algorithm.py: GridGenerator\<close>

datatype Direction =
  RIGHT | LEFT | DOWN | UP | DOWN_RIGHT | DOWN_LEFT | UP_RIGHT | UP_LEFT

fun direction_value :: "Direction \<Rightarrow> int \<times> int" where
  "direction_value RIGHT = (0, 1)"
| "direction_value LEFT = (0, -1)"
| "direction_value DOWN = (1, 0)"
| "direction_value UP = (-1, 0)"
| "direction_value DOWN_RIGHT = (1, 1)"
| "direction_value DOWN_LEFT = (1, -1)"
| "direction_value UP_RIGHT = (-1, 1)"
| "direction_value UP_LEFT = (-1, -1)"

text \<open>\<open>list(Direction)\<close>: the members in definition order.\<close>

definition list_Direction :: "Direction list" where
  "list_Direction = [RIGHT, LEFT, DOWN, UP, DOWN_RIGHT, DOWN_LEFT, UP_RIGHT, UP_LEFT]"

datatype DifficultyLevel = BEGINNER | INTERMEDIATE | ADVANCED | EXPERT

text \<open>
  \<open>WordData\<close> with the fields the engine reads; the remaining fields (definition,
  etymology, origin, prompt, associations, rhyme pattern) are display text copied through.
\<close>

record WordData =
  wd_word :: string
  wd_syllables :: "SyllableSegment list"
  wd_difficulty :: DifficultyLevel

text \<open>A path element \<open>(row, col, direction)\<close>; a \<open>GridPosition\<close> has the same three fields.\<close>

type_synonym path_cell = "int \<times> int \<times> Direction"

record PlacedWord =
  pw_word_data :: WordData
  pw_segments :: "(path_cell \<times> string) list"
  pw_start_position :: path_cell
  pw_total_length :: nat

record GridGenerator =
  width :: int
  height :: int
  grid :: grid
  placed_words :: "PlacedWord list"

definition GridGenerator_init :: "int \<Rightarrow> int \<Rightarrow> GridGenerator" where
  "GridGenerator_init w h =
     \<lparr>width = w, height = h, grid = empty_grid w h, placed_words = []\<rparr>"

definition is_valid_position :: "GridGenerator \<Rightarrow> int \<Rightarrow> int \<Rightarrow> bool" where
  "is_valid_position self row col =
     (0 \<le> row \<and> row < height self \<and> 0 \<le> col \<and> col < width self)"

text \<open>
  The direction candidates of syllable \<open>i\<close> in \<open>_generate_syllable_path\<close>: all eight
  directions, and for \<open>i > 0\<close> the direction of the last path element is removed.
\<close>

definition available_directions :: "nat \<Rightarrow> path_cell list \<Rightarrow> Direction list" where
  "available_directions i path =
     (if i > 0 then
        (case (if path \<noteq> [] then Some (snd (snd (last path))) else None) of
           Some prev_direction \<Rightarrow> remove1 prev_direction list_Direction
         | None \<Rightarrow> list_Direction)
      else list_Direction)"

text \<open>
  The inner loop \<open>for char in syllable.text\<close>: the cells of one syllable, or \<open>None\<close>
  where the source returns \<open>None\<close>; with the cells comes the position after the last one.
\<close>

fun syllable_positions ::
  "GridGenerator \<Rightarrow> string \<Rightarrow> Direction \<Rightarrow> int \<Rightarrow> int \<Rightarrow> (path_cell list \<times> int \<times> int) option"
where
  "syllable_positions self [] direction temp_row temp_col = Some ([], temp_row, temp_col)"
| "syllable_positions self (char # chars) direction temp_row temp_col =
     (if \<not> is_valid_position self temp_row temp_col then None
      else
        (case syllable_positions self chars direction
                (temp_row + fst (direction_value direction))
                (temp_col + snd (direction_value direction)) of
           None \<Rightarrow> None
         | Some (ps, r, c) \<Rightarrow> Some ((temp_row, temp_col, direction) # ps, r, c)))"

fun syllable_path_loop ::
  "GridGenerator \<Rightarrow> SyllableSegment list \<Rightarrow> nat \<Rightarrow> path_cell list \<Rightarrow> int \<Rightarrow> int \<Rightarrow> rng
     \<Rightarrow> py_error + (path_cell list option \<times> rng)"
where
  "syllable_path_loop self [] i path current_row current_col rs = Inr (Some path, rs)"
| "syllable_path_loop self (syllable # rest) i path current_row current_col rs =
     (case py_choice (available_directions i path) rs of
        Inl e \<Rightarrow> Inl e
      | Inr (direction, rs1) \<Rightarrow>
          (case syllable_positions self (syl_text syllable) direction current_row current_col of
             None \<Rightarrow> Inr (None, rs1)
           | Some (ps, r, c) \<Rightarrow> syllable_path_loop self rest (i + 1) (path @ ps) r c rs1))"

definition generate_syllable_path ::
  "GridGenerator \<Rightarrow> WordData \<Rightarrow> int \<Rightarrow> int \<Rightarrow> rng \<Rightarrow> py_error + (path_cell list option \<times> rng)"
where
  "generate_syllable_path self word_data start_row start_col rs =
     syllable_path_loop self (wd_syllables word_data) 0 [] start_row start_col rs"

fun can_place_loop :: "GridGenerator \<Rightarrow> string \<Rightarrow> nat \<Rightarrow> path_cell list \<Rightarrow> py_error + bool" where
  "can_place_loop self w i [] = Inr True"
| "can_place_loop self w i ((row, col, direction) # rest) =
     (if \<not> is_valid_position self row col then Inr False
      else
        (case grid_get (grid self) row col of
           Inl e \<Rightarrow> Inl e
         | Inr cell \<Rightarrow>
             (if cell \<noteq> [] then
                (if i \<ge> length w then Inl IndexError
                 else if cell \<noteq> [w ! i] then Inr False
                 else can_place_loop self w (i + 1) rest)
              else can_place_loop self w (i + 1) rest)))"

definition can_place_word_at_path :: "GridGenerator \<Rightarrow> string \<Rightarrow> path_cell list \<Rightarrow> py_error + bool" where
  "can_place_word_at_path self w path =
     (if length path \<noteq> length w then Inr False else can_place_loop self w 0 path)"

text \<open>
  The loop of \<open>_place_word_at_path\<close>. Its state is the grid, the \<open>segments\<close> list and
  the two counters \<open>current_syllable_idx\<close> and \<open>chars_in_current_syllable\<close>.
\<close>

fun place_loop ::
  "WordData \<Rightarrow> nat \<Rightarrow> path_cell list \<Rightarrow> grid \<Rightarrow> (path_cell \<times> string) list \<Rightarrow> nat \<Rightarrow> nat
     \<Rightarrow> py_error + (grid \<times> (path_cell \<times> string) list)"
where
  "place_loop word_data i [] g segs current_syllable_idx chars_in_current_syllable = Inr (g, segs)"
| "place_loop word_data i ((row, col, direction) # rest) g segs current_syllable_idx
       chars_in_current_syllable =
     (if i \<ge> length (wd_word word_data) then Inl IndexError
      else
        (case grid_set g row col [wd_word word_data ! i] of
           Inl e \<Rightarrow> Inl e
         | Inr g1 \<Rightarrow>
             (let syls = wd_syllables word_data;
                  (syllable_text, idx1, chars1) =
                    (if current_syllable_idx < length syls then
                       (let advance = (chars_in_current_syllable
                                         \<ge> length (syl_text (syls ! current_syllable_idx)));
                            idx = (if advance then current_syllable_idx + 1
                                   else current_syllable_idx);
                            chars = (if advance then 0 else chars_in_current_syllable)
                        in ((if idx < length syls then syl_text (syls ! idx) else []),
                            idx, chars + 1))
                     else ([], current_syllable_idx, chars_in_current_syllable))
              in place_loop word_data (i + 1) rest g1
                   (segs @ [((row, col, direction), syllable_text)]) idx1 chars1)))"

definition place_word_at_path ::
  "GridGenerator \<Rightarrow> WordData \<Rightarrow> path_cell list \<Rightarrow> py_error + (PlacedWord \<times> GridGenerator)"
where
  "place_word_at_path self word_data path =
     (case place_loop word_data 0 path (grid self) [] 0 0 of
        Inl e \<Rightarrow> Inl e
      | Inr (g, segs) \<Rightarrow>
          (case path of
             [] \<Rightarrow> Inl IndexError
           | p0 # _ \<Rightarrow>
               Inr (\<lparr>pw_word_data = word_data, pw_segments = segs, pw_start_position = p0,
                      pw_total_length = length (wd_word word_data)\<rparr>,
                    self\<lparr>grid := g\<rparr>)))"

text \<open>
  \<open>_place_word_in_grid\<close>: the loop \<open>for attempt in range(max_attempts)\<close> with the
  number of attempts left as its counter. \<open>if path and ...\<close> is false for \<open>None\<close> and
  for the empty list.
\<close>

fun place_attempts ::
  "nat \<Rightarrow> GridGenerator \<Rightarrow> WordData \<Rightarrow> rng \<Rightarrow> py_error + (bool \<times> GridGenerator \<times> rng)"
where
  "place_attempts 0 self word_data rs = Inr (False, self, rs)"
| "place_attempts (Suc n) self word_data rs =
     (case py_randint 0 (height self - 1) rs of
        Inl e \<Rightarrow> Inl e
      | Inr (start_row, rs1) \<Rightarrow>
     (case py_randint 0 (width self - 1) rs1 of
        Inl e \<Rightarrow> Inl e
      | Inr (start_col, rs2) \<Rightarrow>
     (case generate_syllable_path self word_data start_row start_col rs2 of
        Inl e \<Rightarrow> Inl e
      | Inr (None, rs3) \<Rightarrow> place_attempts n self word_data rs3
      | Inr (Some path, rs3) \<Rightarrow>
          (if path = [] then place_attempts n self word_data rs3
           else
             (case can_place_word_at_path self (wd_word word_data) path of
                Inl e \<Rightarrow> Inl e
              | Inr False \<Rightarrow> place_attempts n self word_data rs3
              | Inr True \<Rightarrow>
                  (case place_word_at_path self word_data path of
                     Inl e \<Rightarrow> Inl e
                   | Inr (placed_word, self1) \<Rightarrow>
                       Inr (True,
                            self1\<lparr>placed_words := placed_words self1 @ [placed_word]\<rparr>,
                            rs3)))))))"

definition max_attempts :: nat where
  "max_attempts = 100"

definition place_word_in_grid ::
  "GridGenerator \<Rightarrow> WordData \<Rightarrow> rng \<Rightarrow> py_error + (bool \<times> GridGenerator \<times> rng)"
where
  "place_word_in_grid self word_data rs = place_attempts max_attempts self word_data rs"

text \<open>
  The draws that are left after one iteration of the loop of \<open>_place_word_in_grid\<close>
  which found no path: the iteration has drawn the start row, the start column and the
  directions of \<open>_generate_syllable_path\<close>.
\<close>

definition after_attempt :: "GridGenerator \<Rightarrow> WordData \<Rightarrow> rng \<Rightarrow> rng" where
  "after_attempt self word_data rs =
     (case py_randint 0 (height self - 1) rs of
        Inl e \<Rightarrow> rs
      | Inr (start_row, rs1) \<Rightarrow>
     (case py_randint 0 (width self - 1) rs1 of
        Inl e \<Rightarrow> rs1
      | Inr (start_col, rs2) \<Rightarrow>
     (case generate_syllable_path self word_data start_row start_col rs2 of
        Inl e \<Rightarrow> rs2
      | Inr (_, rs3) \<Rightarrow> rs3)))"

definition fill_empty_spaces :: "GridGenerator \<Rightarrow> rng \<Rightarrow> py_error + (GridGenerator \<times> rng)" where
  "fill_empty_spaces self rs =
     (case fill_cells [] (pick_letter ''abcdefghijklmnopqrstuvwxyz'') (grid self)
             (range_cells (height self) (width self)) rs of
        Inl e \<Rightarrow> Inl e
      | Inr (g, rs1) \<Rightarrow> Inr (self\<lparr>grid := g\<rparr>, rs1))"

definition create_word_data :: "string \<Rightarrow> DifficultyLevel \<Rightarrow> WordData" where
  "create_word_data word0 difficulty =
     (let w = py_strip (py_lower word0)
      in \<lparr>wd_word = w, wd_syllables = detect_syllables w, wd_difficulty = difficulty\<rparr>)"

fun place_words ::
  "GridGenerator \<Rightarrow> WordData list \<Rightarrow> rng \<Rightarrow> py_error + (GridGenerator \<times> rng)"
where
  "place_words self [] rs = Inr (self, rs)"
| "place_words self (word_data # rest) rs =
     (case place_word_in_grid self word_data rs of
        Inl e \<Rightarrow> Inl e
      | Inr (_, self1, rs1) \<Rightarrow> place_words self1 rest rs1)"

text \<open>
  The dictionary \<open>generate_puzzle\<close> returns, without its constant entries (theme and
  mindfulness text). \<open>pd_placed_words\<close> keeps what \<open>_serialize_placed_word\<close> writes
  for each placed word: the word, its syllables, the start position, the segments and
  the length.
\<close>

type_synonym serialized_word =
  "string \<times> string list \<times> path_cell \<times> (path_cell \<times> string) list \<times> nat"

record PuzzleData =
  pd_grid :: grid
  pd_words :: "WordData list"
  pd_placed_words :: "serialized_word list"
  pd_difficulty :: DifficultyLevel
  pd_dimensions :: "int \<times> int"

definition serialize_placed_word :: "PlacedWord \<Rightarrow> serialized_word" where
  "serialize_placed_word placed_word =
     (wd_word (pw_word_data placed_word),
      map syl_text (wd_syllables (pw_word_data placed_word)),
      pw_start_position placed_word,
      pw_segments placed_word,
      pw_total_length placed_word)"

text \<open>
  \<open>list.sort(key=lambda w: len(w.word), reverse=True)\<close> is stable: words of equal
  length keep their order, as \<open>sort_key\<close> on the negated length does.
\<close>

definition generate_puzzle ::
  "GridGenerator \<Rightarrow> string list \<Rightarrow> DifficultyLevel \<Rightarrow> rng
     \<Rightarrow> py_error + (PuzzleData \<times> GridGenerator \<times> rng)"
where
  "generate_puzzle self word_list difficulty rs =
     (let word_data_list = map (\<lambda>w. create_word_data w difficulty) word_list;
          sorted_list = sort_key (\<lambda>w. - int (length (wd_word w))) word_data_list;
          self0 = self\<lparr>grid := empty_grid (width self) (height self), placed_words := []\<rparr>
      in case place_words self0 sorted_list rs of
           Inl e \<Rightarrow> Inl e
         | Inr (self1, rs1) \<Rightarrow>
             (case fill_empty_spaces self1 rs1 of
                Inl e \<Rightarrow> Inl e
              | Inr (self2, rs2) \<Rightarrow>
                  Inr (\<lparr>pd_grid = grid self2,
                         pd_words = map pw_word_data (placed_words self2),
                         pd_placed_words = map serialize_placed_word (placed_words self2),
                         pd_difficulty = difficulty,
                         pd_dimensions = (width self2, height self2)\<rparr>,
                       self2, rs2)))"

section \<open>Well-formed grids\<close>

text \<open>
  The shape every constructor gives its grid: \<open>h\<close> rows of \<open>w\<close> cells. The generator
  is well formed when its grid has the shape its \<open>height\<close> and \<open>width\<close> announce.
\<close>

definition rect :: "grid \<Rightarrow> int \<Rightarrow> int \<Rightarrow> bool" where
  "rect g h w = (length g = nat h \<and> (\<forall>row \<in> set g. length row = nat w))"

definition grid_ok :: "GridGenerator \<Rightarrow> bool" where
  "grid_ok self = rect (grid self) (height self) (width self)"

text \<open>Reading the grid along a list of coordinates, as a solver does.\<close>

fun read_cells :: "grid \<Rightarrow> (int \<times> int) list \<Rightarrow> py_error + string list" where
  "read_cells g [] = Inr []"
| "read_cells g ((row, col) # rest) =
     (case grid_get g row col of
        Inl e \<Rightarrow> Inl e
      | Inr cell \<Rightarrow>
          (case read_cells g rest of Inl e \<Rightarrow> Inl e | Inr cells \<Rightarrow> Inr (cell # cells)))"

definition path_coords :: "path_cell list \<Rightarrow> (int \<times> int) list" where
  "path_coords path = map (\<lambda>(row, col, direction). (row, col)) path"

definition valid_cell :: "GridGenerator \<Rightarrow> path_cell \<Rightarrow> bool" where
  "valid_cell self p = is_valid_position self (fst p) (fst (snd p))"

text \<open>Every cell is empty or holds one character of the alphabet \<open>A\<close>.\<close>

definition cells_in :: "char set \<Rightarrow> grid \<Rightarrow> bool" where
  "cells_in A g = (\<forall>row \<in> set g. \<forall>cell \<in> set row. cell = [] \<or> (\<exists>ch \<in> A. cell = [ch]))"

text \<open>No cell is empty: every cell holds one character of the alphabet \<open>A\<close>.\<close>

definition cells_full :: "char set \<Rightarrow> grid \<Rightarrow> bool" where
  "cells_full A g = (\<forall>row \<in> set g. \<forall>cell \<in> set row. \<exists>ch \<in> A. cell = [ch])"

text \<open>\<open>path\<close> is a path that \<open>_generate_syllable_path\<close> can return for the word.\<close>

definition generated_path :: "GridGenerator \<Rightarrow> WordData \<Rightarrow> path_cell list \<Rightarrow> bool" where
  "generated_path self word_data path =
     (\<exists>start_row start_col rs rs1.
        generate_syllable_path self word_data start_row start_col rs = Inr (Some path, rs1))"

text \<open>
  The invariant of a generator between two placements: the grid has the announced shape,
  its cells are empty or hold a character of \<open>A\<close>, and every placed word is one of the
  words \<open>W\<close> and records a path that the path generator returned for it.
\<close>

definition engine_inv :: "char set \<Rightarrow> WordData set \<Rightarrow> GridGenerator \<Rightarrow> bool" where
  "engine_inv A W self =
     (grid_ok self \<and> cells_in A (grid self) \<and>
      (\<forall>pw \<in> set (placed_words self).
         pw_word_data pw \<in> W \<and>
         generated_path self (pw_word_data pw) (map fst (pw_segments pw))))"

definition lowercase_letters :: "char set" where
  "lowercase_letters = set ''abcdefghijklmnopqrstuvwxyz''"

definition uppercase_letters :: "char set" where
  "uppercase_letters = set ''ABCDEFGHIJKLMNOPQRSTUVWXYZ''"

section \<open>kdp\_wordsearch\_generator.py: KDPWordsearchGenerator\<close>

text \<open>
  \<open>_fill_empty_spaces(grid)\<close>: this engine marks an empty cell with a dot and takes the
  bounds of its loops from the grid itself, \<open>len(grid)\<close> and \<open>len(grid[0])\<close>.
\<close>

definition kdp_fill_empty_spaces :: "grid \<Rightarrow> rng \<Rightarrow> py_error + (grid \<times> rng)" where
  "kdp_fill_empty_spaces g rs =
     fill_cells ''.'' (pick_letter ''ABCDEFGHIJKLMNOPQRSTUVWXYZ'') g
       (range_cells (int (length g)) (case g of [] \<Rightarrow> 0 | row0 # _ \<Rightarrow> int (length row0))) rs"

text \<open>
  \<open>_generate_direction_sequence\<close>: one direction per syllable, each drawn from the
  same list; the list depends on the difficulty's \<open>directions\<close> setting only.
\<close>

definition kdp_available_directions :: "string list \<Rightarrow> (int \<times> int) list" where
  "kdp_available_directions directions =
     (if ''horizontal'' \<in> set directions then [(1, 0), (-1, 0)] else [])
     @ (if ''vertical'' \<in> set directions then [(0, 1), (0, -1)] else [])
     @ (if ''diagonal'' \<in> set directions then [(1, 1), (-1, -1), (1, -1), (-1, 1)] else [])"

fun kdp_direction_loop ::
  "(int \<times> int) list \<Rightarrow> string list \<Rightarrow> (int \<times> int) list \<Rightarrow> rng
     \<Rightarrow> py_error + ((int \<times> int) list \<times> rng)"
where
  "kdp_direction_loop available [] direction_sequence rs = Inr (direction_sequence, rs)"
| "kdp_direction_loop available (syllable # rest) direction_sequence rs =
     (case py_choice available rs of
        Inl e \<Rightarrow> Inl e
      | Inr (direction, rs1) \<Rightarrow>
          kdp_direction_loop available rest (direction_sequence @ [direction]) rs1)"

definition kdp_generate_direction_sequence ::
  "string list \<Rightarrow> string list \<Rightarrow> rng \<Rightarrow> py_error + ((int \<times> int) list \<times> rng)"
where
  "kdp_generate_direction_sequence syllables directions rs =
     kdp_direction_loop (kdp_available_directions directions) syllables [] rs"

section \<open>expanded\_word\_canvas\_system.py: ExpandedWordCanvas\<close>

text \<open>
  \<open>fill_empty_cells\<close>. \<open>random.random() < 0.4\<close> is a draw of its own; of the float only
  the outcome of the comparison matters, and it is read off the draw's last decimal digit.
\<close>

definition pick_weighted :: "rng \<Rightarrow> py_error + (string \<times> rng)" where
  "pick_weighted rs =
     (if rng_head rs mod 10 < 4 then pick_letter ''AEIOU'' (rng_tail rs)
      else pick_letter ''BCDFGHJKLMNPQRSTVWXYZ'' (rng_tail rs))"

text \<open>
  The canvas, with the fields the filler and the placement attempt read: \<open>rows\<close>,
  \<open>cols\<close> and \<open>grid\<close>.
\<close>

record ExpandedWordCanvas =
  rows :: int
  cols :: int
  canvas_grid :: grid

definition fill_empty_cells :: "ExpandedWordCanvas \<Rightarrow> rng \<Rightarrow> py_error + (ExpandedWordCanvas \<times> rng)" where
  "fill_empty_cells self rs =
     (case fill_cells [] pick_weighted (canvas_grid self) (range_cells (rows self) (cols self)) rs of
        Inl e \<Rightarrow> Inl e
      | Inr (g, rs1) \<Rightarrow> Inr (self\<lparr>canvas_grid := g\<rparr>, rs1))"

text \<open>
  \<open>class Direction(Enum)\<close> of this file, with its members in the order of their
  definition, which is the order \<open>list(Direction)\<close> and \<open>for direction in Direction\<close>
  go through. The eight values differ, so no member is an alias of another.
\<close>

datatype CanvasDirection =
  HORIZONTAL | VERTICAL | DIAGONAL_DOWN | DIAGONAL_UP
  | REVERSE_HORIZONTAL | REVERSE_VERTICAL | REVERSE_DIAGONAL_DOWN | REVERSE_DIAGONAL_UP

fun canvas_direction_value :: "CanvasDirection \<Rightarrow> int \<times> int" where
  "canvas_direction_value HORIZONTAL = (0, 1)"
| "canvas_direction_value VERTICAL = (1, 0)"
| "canvas_direction_value DIAGONAL_DOWN = (1, 1)"
| "canvas_direction_value DIAGONAL_UP = (-1, 1)"
| "canvas_direction_value REVERSE_HORIZONTAL = (0, -1)"
| "canvas_direction_value REVERSE_VERTICAL = (-1, 0)"
| "canvas_direction_value REVERSE_DIAGONAL_DOWN = (-1, -1)"
| "canvas_direction_value REVERSE_DIAGONAL_UP = (1, -1)"

definition list_CanvasDirection :: "CanvasDirection list" where
  "list_CanvasDirection =
     [HORIZONTAL, VERTICAL, DIAGONAL_DOWN, DIAGONAL_UP,
      REVERSE_HORIZONTAL, REVERSE_VERTICAL, REVERSE_DIAGONAL_DOWN, REVERSE_DIAGONAL_UP]"

text \<open>
  \<open>WordData\<close>, \<open>SyllableSegment\<close> and \<open>PlacedWord\<close> of this file. Of \<open>WordData\<close> the
  placement reads the word and its syllables only; the other fields are descriptive
  text. A letter is a string of length one, as a grid cell is.
\<close>

record CanvasWordData =
  cw_word :: string
  cw_syllables :: "string list"

record CanvasSyllableSegment =
  seg_syllable :: string
  seg_start_pos :: "int \<times> int"
  seg_direction :: CanvasDirection
  seg_letters :: "(int \<times> int \<times> string) list"

record CanvasPlacedWord =
  cp_word_data :: CanvasWordData
  cp_segments :: "CanvasSyllableSegment list"
  cp_total_positions :: "(int \<times> int) list"
  cp_discovery_order :: "nat option"

text \<open>\<open>__init__\<close>, from the value \<open>(rows, cols)\<close> of the grid size.\<close>

definition ExpandedWordCanvas_init :: "int \<times> int \<Rightarrow> ExpandedWordCanvas" where
  "ExpandedWordCanvas_init grid_size =
     \<lparr>rows = fst grid_size, cols = snd grid_size,
      canvas_grid = empty_grid (snd grid_size) (fst grid_size)\<rparr>"

definition canvas_is_valid_position :: "ExpandedWordCanvas \<Rightarrow> int \<Rightarrow> int \<Rightarrow> bool" where
  "canvas_is_valid_position self row col =
     (0 \<le> row \<and> row < rows self \<and> 0 \<le> col \<and> col < cols self)"

text \<open>
  \<open>_get_available_directions\<close>: the directions in which \<open>length\<close> cells from
  \<open>(row, col)\<close> stay inside the grid, in the order of the enumeration.
\<close>

definition get_available_directions ::
  "ExpandedWordCanvas \<Rightarrow> int \<Rightarrow> int \<Rightarrow> nat \<Rightarrow> CanvasDirection list"
where
  "get_available_directions self row col length_arg =
     filter
       (\<lambda>direction.
          list_all
            (\<lambda>i. canvas_is_valid_position self
                   (row + fst (canvas_direction_value direction) * int i)
                   (col + snd (canvas_direction_value direction) * int i))
            [0..<length_arg])
       list_CanvasDirection"

text \<open>
  The inner loop \<open>for letter in syllable\<close> of \<open>_attempt_syllable_placement\<close>: the
  letters of one syllable with their cells, or \<open>None\<close> where the source returns \<open>None\<close>.
\<close>

fun canvas_syllable_positions ::
  "ExpandedWordCanvas \<Rightarrow> string \<Rightarrow> CanvasDirection \<Rightarrow> int \<Rightarrow> int
     \<Rightarrow> py_error + (int \<times> int \<times> string) list option"
where
  "canvas_syllable_positions self [] direction temp_row temp_col = Inr (Some [])"
| "canvas_syllable_positions self (letter # letters) direction temp_row temp_col =
     (if \<not> canvas_is_valid_position self temp_row temp_col then Inr None
      else
        (case grid_get (canvas_grid self) temp_row temp_col of
           Inl e \<Rightarrow> Inl e
         | Inr cell \<Rightarrow>
             (if cell \<noteq> [] \<and> cell \<noteq> [letter] then Inr None
              else
                (case canvas_syllable_positions self letters direction
                        (temp_row + fst (canvas_direction_value direction))
                        (temp_col + snd (canvas_direction_value direction)) of
                   Inl e \<Rightarrow> Inl e
                 | Inr None \<Rightarrow> Inr None
                 | Inr (Some ps) \<Rightarrow> Inr (Some ((temp_row, temp_col, [letter]) # ps))))))"

text \<open>
  The loop \<open>for i, syllable in enumerate(word_data.syllables)\<close>. The first syllable draws
  its direction from all eight; a later one draws it from
  \<open>_get_available_directions\<close> at the current cell, and the attempt is given up when
  that list is empty.
\<close>

fun attempt_loop ::
  "ExpandedWordCanvas \<Rightarrow> string list \<Rightarrow> nat \<Rightarrow> CanvasSyllableSegment list \<Rightarrow> (int \<times> int) list
     \<Rightarrow> int \<Rightarrow> int \<Rightarrow> rng
     \<Rightarrow> py_error + ((CanvasSyllableSegment list \<times> (int \<times> int) list) option \<times> rng)"
where
  "attempt_loop self [] i segments all_positions current_row current_col rs =
     Inr (Some (segments, all_positions), rs)"
| "attempt_loop self (syllable # rest) i segments all_positions current_row current_col rs =
     (let available_directions =
            (if i = 0 then list_CanvasDirection
             else get_available_directions self current_row current_col (length syllable))
      in if i \<noteq> 0 \<and> available_directions = [] then Inr (None, rs)
         else
           (case py_choice available_directions rs of
              Inl e \<Rightarrow> Inl e
            | Inr (direction, rs1) \<Rightarrow>
                (case canvas_syllable_positions self syllable direction current_row current_col of
                   Inl e \<Rightarrow> Inl e
                 | Inr None \<Rightarrow> Inr (None, rs1)
                 | Inr (Some letters_placed) \<Rightarrow>
                     (let segment = \<lparr>seg_syllable = syllable,
                                      seg_start_pos = (current_row, current_col),
                                      seg_direction = direction,
                                      seg_letters = letters_placed\<rparr>;
                          (next_row, next_col) =
                            (if letters_placed \<noteq> [] then
                               (fst (last letters_placed) + fst (canvas_direction_value direction),
                                fst (snd (last letters_placed))
                                  + snd (canvas_direction_value direction))
                             else (current_row, current_col))
                      in attempt_loop self rest (i + 1) (segments @ [segment])
                           (all_positions @ map (\<lambda>p. (fst p, fst (snd p))) letters_placed)
                           next_row next_col rs1))))"

definition attempt_syllable_placement ::
  "ExpandedWordCanvas \<Rightarrow> CanvasWordData \<Rightarrow> int \<Rightarrow> int \<Rightarrow> rng
     \<Rightarrow> py_error + (CanvasPlacedWord option \<times> rng)"
where
  "attempt_syllable_placement self word_data start_row start_col rs =
     (case attempt_loop self (cw_syllables word_data) 0 [] [] start_row start_col rs of
        Inl e \<Rightarrow> Inl e
      | Inr (None, rs1) \<Rightarrow> Inr (None, rs1)
      | Inr (Some (segments, all_positions), rs1) \<Rightarrow>
          Inr (Some \<lparr>cp_word_data = word_data, cp_segments = segments,
                      cp_total_positions = all_positions, cp_discovery_order = None\<rparr>,
               rs1))"

text \<open>
  What the segments of a placed word owe to the loop that made them: there is one segment
  for each syllable, the first one starts at \<open>(r, c)\<close>, each later one starts one step
  beyond the last letter of the one before it, and the direction of every syllable after
  the first is one of \<open>_get_available_directions\<close> at its start.
\<close>

definition segments_chain ::
  "ExpandedWordCanvas \<Rightarrow> nat \<Rightarrow> int \<Rightarrow> int \<Rightarrow> string list \<Rightarrow> CanvasSyllableSegment list \<Rightarrow> bool"
where
  "segments_chain self i r c syls new =
     (length new = length syls
      \<and> (\<forall>j < length syls. seg_syllable (new ! j) = syls ! j)
      \<and> (syls \<noteq> [] \<longrightarrow> seg_start_pos (new ! 0) = (r, c))
      \<and> (\<forall>j. Suc j < length syls \<longrightarrow>
             seg_start_pos (new ! Suc j)
               = (fst (seg_start_pos (new ! j))
                    + int (length (seg_syllable (new ! j)))
                      * fst (canvas_direction_value (seg_direction (new ! j))),
                  snd (seg_start_pos (new ! j))
                    + int (length (seg_syllable (new ! j)))
                      * snd (canvas_direction_value (seg_direction (new ! j)))))
      \<and> (\<forall>j < length syls. 0 < i + j \<longrightarrow>
             seg_direction (new ! j)
               \<in> set (get_available_directions self
                        (fst (seg_start_pos (new ! j))) (snd (seg_start_pos (new ! j)))
                        (length (seg_syllable (new ! j))))))"

text \<open>
  The two counts of the fill ratio, \<open>filled_cells / total_cells\<close>: the ratio is one when
  the counts are equal.
\<close>

definition filled_cells :: "grid \<Rightarrow> nat" where
  "filled_cells g = length (filter (\<lambda>cell. cell \<noteq> []) (concat g))"

definition total_cells :: "grid \<Rightarrow> nat" where
  "total_cells g = length (concat g)"


section \<open>scripts/enhanced\_kdp\_generation\_system.py: EnhancedKDPGenerator\<close>

text \<open>
  This engine names its directions by strings. \<open>_get_direction_delta\<close> looks the name up
  with \<open>(0, 1)\<close> as default; \<open>_get_new_direction\<close> draws one of the other names.
\<close>

definition get_direction_delta :: "string \<Rightarrow> int \<times> int" where
  "get_direction_delta direction =
     (case map_of [(''horizontal'', (0, 1)), (''vertical'', (1, 0)), (''diagonal'', (1, 1)),
                   (''diagonal_up'', (-1, 1))] direction of
        Some delta \<Rightarrow> delta
      | None \<Rightarrow> (0, 1))"

definition get_new_direction :: "string \<Rightarrow> rng \<Rightarrow> py_error + (string \<times> rng)" where
  "get_new_direction current_direction rs =
     py_choice (filter (\<lambda>d. d \<noteq> current_direction)
                  [''horizontal'', ''vertical'', ''diagonal'', ''diagonal_up'']) rs"

text \<open>
  The part of the loop body that \<open>_can_place_syllable_word\<close> and \<open>_place_syllable_word\<close>
  share, after the cell has been checked or written: count the character, draw a new
  direction at the end of a syllable, and step unless the character was the last one.
  The state is \<open>(current_row, current_col, direction, char_index, syllable_index,
  chars_in_syllable)\<close>.
\<close>

type_synonym walk_state = "int \<times> int \<times> string \<times> nat \<times> nat \<times> nat"

definition advance_walk ::
  "string \<Rightarrow> string list \<Rightarrow> walk_state \<Rightarrow> rng \<Rightarrow> py_error + (walk_state \<times> rng)"
where
  "advance_walk word syllables st rs =
     (case st of (current_row, current_col, direction, char_index, syllable_index, chars_in_syllable) \<Rightarrow>
        (let chars1 = chars_in_syllable + 1
         in case (if syllable_index < length syllables
                     \<and> chars1 \<ge> length (syllables ! syllable_index)
                  then (case get_new_direction direction rs of
                          Inl e \<Rightarrow> Inl e
                        | Inr (d, rs1) \<Rightarrow> Inr (d, syllable_index + 1, 0, rs1))
                  else Inr (direction, syllable_index, chars1, rs)) of
              Inl e \<Rightarrow> Inl e
            | Inr (direction1, syllable_index1, chars2, rs1) \<Rightarrow>
                (if int char_index < int (length word) - 1
                 then Inr ((current_row + fst (get_direction_delta direction1),
                            current_col + snd (get_direction_delta direction1),
                            direction1, char_index + 1, syllable_index1, chars2), rs1)
                 else Inr ((current_row, current_col, direction1, char_index + 1,
                            syllable_index1, chars2), rs1))))"

fun ekdp_can_place_loop ::
  "grid \<Rightarrow> string \<Rightarrow> string list \<Rightarrow> int \<Rightarrow> string \<Rightarrow> walk_state \<Rightarrow> rng
     \<Rightarrow> py_error + (bool \<times> rng)"
where
  "ekdp_can_place_loop g word syllables grid_size [] st rs = Inr (True, rs)"
| "ekdp_can_place_loop g word syllables grid_size (char # rest) st rs =
     (case st of (current_row, current_col, direction, char_index, syllable_index, chars_in_syllable) \<Rightarrow>
        (if current_row < 0 \<or> current_row \<ge> grid_size \<or> current_col < 0 \<or> current_col \<ge> grid_size
         then Inr (False, rs)
         else
           (case grid_get g current_row current_col of
              Inl e \<Rightarrow> Inl e
            | Inr cell \<Rightarrow>
                (if cell \<noteq> [] \<and> cell \<noteq> [char] then Inr (False, rs)
                 else
                   (case advance_walk word syllables st rs of
                      Inl e \<Rightarrow> Inl e
                    | Inr (st1, rs1) \<Rightarrow>
                        ekdp_can_place_loop g word syllables grid_size rest st1 rs1)))))"

definition ekdp_can_place_syllable_word ::
  "grid \<Rightarrow> string \<Rightarrow> string list \<Rightarrow> int \<Rightarrow> int \<Rightarrow> int \<Rightarrow> rng \<Rightarrow> py_error + (bool \<times> rng)"
where
  "ekdp_can_place_syllable_word g word syllables start_row start_col grid_size rs =
     (case py_choice [''horizontal'', ''vertical'', ''diagonal''] rs of
        Inl e \<Rightarrow> Inl e
      | Inr (direction, rs1) \<Rightarrow>
          ekdp_can_place_loop g word syllables grid_size word
            (start_row, start_col, direction, 0, 0, 0) rs1)"

fun ekdp_place_loop ::
  "grid \<Rightarrow> string \<Rightarrow> string list \<Rightarrow> string \<Rightarrow> walk_state \<Rightarrow> rng \<Rightarrow> py_error + (grid \<times> rng)"
where
  "ekdp_place_loop g word syllables [] st rs = Inr (g, rs)"
| "ekdp_place_loop g word syllables (char # rest) st rs =
     (case st of (current_row, current_col, direction, char_index, syllable_index, chars_in_syllable) \<Rightarrow>
        (case grid_set g current_row current_col [char] of
           Inl e \<Rightarrow> Inl e
         | Inr g1 \<Rightarrow>
             (case advance_walk word syllables st rs of
                Inl e \<Rightarrow> Inl e
              | Inr (st1, rs1) \<Rightarrow> ekdp_place_loop g1 word syllables rest st1 rs1)))"

definition ekdp_place_syllable_word ::
  "grid \<Rightarrow> string \<Rightarrow> string list \<Rightarrow> int \<Rightarrow> int \<Rightarrow> rng \<Rightarrow> py_error + (grid \<times> rng)"
where
  "ekdp_place_syllable_word g word syllables start_row start_col rs =
     (case py_choice [''horizontal'', ''vertical'', ''diagonal''] rs of
        Inl e \<Rightarrow> Inl e
      | Inr (direction, rs1) \<Rightarrow>
          ekdp_place_loop g word syllables word (start_row, start_col, direction, 0, 0, 0) rs1)"

text \<open>
  \<open>_generate_syllable_aware_grid\<close>. The loop \<open>while not placed and attempts < 50\<close> has
  the number of attempts left as its counter and ends with the first placement. A word
  comes with its syllables, or without, and then is its own single syllable.
\<close>

fun ekdp_attempts ::
  "nat \<Rightarrow> grid \<Rightarrow> string \<Rightarrow> string list \<Rightarrow> int \<Rightarrow> rng \<Rightarrow> py_error + (grid \<times> rng)"
where
  "ekdp_attempts 0 g word syllables grid_size rs = Inr (g, rs)"
| "ekdp_attempts (Suc n) g word syllables grid_size rs =
     (case py_randint 0 (grid_size - 1) rs of
        Inl e \<Rightarrow> Inl e
      | Inr (start_row, rs1) \<Rightarrow>
     (case py_randint 0 (grid_size - 1) rs1 of
        Inl e \<Rightarrow> Inl e
      | Inr (start_col, rs2) \<Rightarrow>
     (case ekdp_can_place_syllable_word g word syllables start_row start_col grid_size rs2 of
        Inl e \<Rightarrow> Inl e
      | Inr (True, rs3) \<Rightarrow> ekdp_place_syllable_word g word syllables start_row start_col rs3
      | Inr (False, rs3) \<Rightarrow> ekdp_attempts n g word syllables grid_size rs3)))"

fun ekdp_place_words ::
  "grid \<Rightarrow> (string \<times> string list option) list \<Rightarrow> int \<Rightarrow> rng \<Rightarrow> py_error + (grid \<times> rng)"
where
  "ekdp_place_words g [] grid_size rs = Inr (g, rs)"
| "ekdp_place_words g ((word, syllables) # rest) grid_size rs =
     (case ekdp_attempts 50 g word (case syllables of Some s \<Rightarrow> s | None \<Rightarrow> [word])
             grid_size rs of
        Inl e \<Rightarrow> Inl e
      | Inr (g1, rs1) \<Rightarrow> ekdp_place_words g1 rest grid_size rs1)"

text \<open>\<open>chr(65 + random.randint(0, 25))\<close>.\<close>

definition pick_chr :: "rng \<Rightarrow> py_error + (string \<times> rng)" where
  "pick_chr rs =
     (case py_randint 0 25 rs of
        Inl e \<Rightarrow> Inl e
      | Inr (n, rs1) \<Rightarrow> Inr ([char_of (65 + n)], rs1))"

definition ekdp_generate_syllable_aware_grid ::
  "(string \<times> string list option) list \<Rightarrow> int \<Rightarrow> rng \<Rightarrow> py_error + (grid \<times> rng)"
where
  "ekdp_generate_syllable_aware_grid words grid_size rs =
     (case ekdp_place_words (map (\<lambda>_. replicate (nat grid_size) []) (py_range grid_size))
             words grid_size rs of
        Inl e \<Rightarrow> Inl e
      | Inr (g, rs1) \<Rightarrow> fill_cells [] pick_chr g (range_cells grid_size grid_size) rs1)"

chapter \<open>Verified properties\<close>

section \<open>Syllable splitting\<close>

lemma concat_add_remaining: "concat (add_remaining syllables cur) = concat syllables @ cur"
proof (cases "syllables = []")
  case True
  then show ?thesis by (simp add: add_remaining_def)
next
  case False
  then have "syllables = butlast syllables @ [last syllables]" by simp
  then have "concat syllables = concat (butlast syllables) @ last syllables"
    by (metis append_Nil2 concat.simps(1) concat.simps(2) concat_append)
  with False show ?thesis by (simp add: add_remaining_def)
qed

text \<open>
  C5. A syllable splitter returns at least one syllable, and its syllables concatenate to
  the input word. \<open>SyllableDetector\<close> does not: for a word outside its table whose
  vowel is followed by two or more consonants, the consonants after the split point are
  put into the next syllable and then read a second time by the scan. For \<open>hello\<close>
  the syllables are \<open>hel\<close> and \<open>llo\<close>, which concatenate to six letters.
\<close>

theorem detect_syllables_hello:
  "map syl_text (detect_syllables ''hello'') = [''hel'', ''llo'']
   \<and> concat (map syl_text (detect_syllables ''hello'')) = ''helllo''"
  by code_simp

text \<open>
  The sibling splitter, \<open>SyllableProcessor.split_syllables\<close>, does what C5 says: it returns
  at least one syllable, and its syllables concatenate to the lowercased, stripped word.
\<close>

lemma mineru_loop_concat:
  "mineru_loop word i syllables cur = (syllables', cur') \<Longrightarrow> i \<le> length word \<Longrightarrow>
   concat syllables @ cur = take i word \<Longrightarrow> concat syllables' @ cur' = word"
proof (induction word i syllables cur rule: mineru_loop.induct)
  case (1 word i syllables cur)
  show ?case
  proof (cases "i < length word")
    case True
    then have tk: "take (i + 1) word = take i word @ [word ! i]"
      by (simp add: take_Suc_conv_app_nth)
    show ?thesis
    proof (cases "mineru_is_syllable_boundary word i")
      case b: True
      from "1.prems"(1) True b
      have "mineru_loop word (i + 1) (syllables @ [cur @ [word ! i]]) [] = (syllables', cur')"
        by (subst (asm) mineru_loop.simps) (simp add: Let_def)
      moreover have "concat (syllables @ [cur @ [word ! i]]) @ [] = take (i + 1) word"
        using "1.prems"(3) tk by simp
      ultimately show ?thesis
        using "1.IH"(1)[OF True refl b] True by simp
    next
      case b: False
      from "1.prems"(1) True b
      have "mineru_loop word (i + 1) syllables (cur @ [word ! i]) = (syllables', cur')"
        by (subst (asm) mineru_loop.simps) (simp add: Let_def)
      moreover have "concat syllables @ (cur @ [word ! i]) = take (i + 1) word"
        using "1.prems"(3) tk by simp
      ultimately show ?thesis
        using "1.IH"(2)[OF True refl b] True by simp
    qed
  next
    case False
    with "1.prems" show ?thesis by (subst (asm) mineru_loop.simps) simp
  qed
qed

lemma mineru_split_syllables_concat:
  "concat (mineru_split_syllables w) = py_strip (py_lower w)"
proof -
  let ?word = "py_strip (py_lower w)"
  obtain syllables cur where l: "mineru_loop ?word 0 [] [] = (syllables, cur)"
    by (cases "mineru_loop ?word 0 [] []")
  then have "concat syllables @ cur = ?word"
    using mineru_loop_concat[OF l] by simp
  then have "concat (add_remaining syllables cur) = ?word"
    by (simp add: concat_add_remaining)
  then show ?thesis
    using l by (simp add: mineru_split_syllables_def Let_def)
qed

lemma mineru_split_syllables_nonempty: "mineru_split_syllables w \<noteq> []"
  by (simp add: mineru_split_syllables_def Let_def split: prod.splits)

text \<open>
  It also keeps the vowel invariant of C7 without a merge step: it closes a syllable only
  behind a vowel, and adds what is left to the last syllable.
\<close>

lemma mineru_boundary_vowel:
  "mineru_is_syllable_boundary word i \<Longrightarrow> word ! i \<in> vowels"
  by (auto simp: mineru_is_syllable_boundary_def Let_def split: if_splits)

lemma mineru_loop_vowels:
  "mineru_loop word i syllables cur = (syllables', cur') \<Longrightarrow>
   (\<And>s. s \<in> set syllables \<Longrightarrow> has_vowel s) \<Longrightarrow> s \<in> set syllables' \<Longrightarrow> has_vowel s"
proof (induction word i syllables cur rule: mineru_loop.induct)
  case (1 word i syllables cur)
  show ?case
  proof (cases "i < length word")
    case True
    show ?thesis
    proof (cases "mineru_is_syllable_boundary word i")
      case b: True
      from "1.prems"(1) True b
      have rec: "mineru_loop word (i + 1) (syllables @ [cur @ [word ! i]]) [] = (syllables', cur')"
        by (subst (asm) mineru_loop.simps) (simp add: Let_def)
      have "has_vowel t" if "t \<in> set (syllables @ [cur @ [word ! i]])" for t
      proof (cases "t \<in> set syllables")
        case True
        then show ?thesis by (rule "1.prems"(2))
      next
        case False
        with that have "t = cur @ [word ! i]" by simp
        with mineru_boundary_vowel[OF b] show ?thesis by (simp add: has_vowel_def)
      qed
      with "1.IH"(1)[OF True refl b rec] "1.prems"(3) show ?thesis by blast
    next
      case b: False
      from "1.prems"(1) True b
      have rec: "mineru_loop word (i + 1) syllables (cur @ [word ! i]) = (syllables', cur')"
        by (subst (asm) mineru_loop.simps) (simp add: Let_def)
      from "1.IH"(2)[OF True refl b rec] "1.prems"(2,3) show ?thesis by blast
    qed
  next
    case False
    with "1.prems" show ?thesis by (subst (asm) mineru_loop.simps) simp
  qed
qed

lemma has_vowel_append: "has_vowel (a @ b) = (has_vowel a \<or> has_vowel b)"
  by (auto simp: has_vowel_def)

lemma mineru_split_syllables_vowels:
  assumes "has_vowel (py_strip (py_lower w))" and "s \<in> set (mineru_split_syllables w)"
  shows "has_vowel s"
proof -
  let ?word = "py_strip (py_lower w)"
  obtain syllables cur where l: "mineru_loop ?word 0 [] [] = (syllables, cur)"
    by (cases "mineru_loop ?word 0 [] []")
  have v: "\<And>t. t \<in> set syllables \<Longrightarrow> has_vowel t"
    using mineru_loop_vowels[OF l] by simp
  have whole: "concat syllables @ cur = ?word" using mineru_loop_concat[OF l] by simp
  have rem: "has_vowel t" if "t \<in> set (add_remaining syllables cur)" for t
  proof (cases "syllables = []")
    case True
    with whole that assms(1) show ?thesis
      by (auto simp: add_remaining_def split: if_splits)
  next
    case False
    then have "last syllables \<in> set syllables" by simp
    then have "has_vowel (last syllables)" by (rule v)
    moreover have "t \<in> set (butlast syllables) \<Longrightarrow> has_vowel t"
      using v in_set_butlastD by metis
    ultimately show ?thesis using that False v
      by (auto simp: add_remaining_def has_vowel_append split: if_splits)
  qed
  from assms(2) l show ?thesis
    using rem assms(1) by (auto simp: mineru_split_syllables_def Let_def split: if_splits)
qed

text \<open>
  C7. Every syllable of a word longer than two letters that has a vowel has a vowel
  itself. \<open>AdvancedSyllableProcessor.split_syllables\<close> returns early for a word that
  ends in a consonant followed by \<open>le\<close>, before \<open>_post_process_syllables\<close> can merge
  anything: \<open>style\<close> is split into \<open>st\<close> and \<open>yle\<close>, and \<open>st\<close> has no vowel.
\<close>

theorem adv_split_syllables_style:
  "adv_split_syllables ''style'' = Inr [''st'', ''yle''] \<and> \<not> has_vowel ''st''
   \<and> has_vowel ''style'' \<and> length ''style'' > 2"
  by code_simp

text \<open>
  The merge step of \<open>AdvancedSyllableProcessor\<close> does what its comment says: whenever it
  returns, and some syllable it was given has a vowel, every syllable it returns has one.
\<close>

lemma post_process_loop_vowels:
  "post_process_loop xs i processed = Inr out \<Longrightarrow>
   (\<And>p. p \<in> set processed \<Longrightarrow> has_vowel p) \<Longrightarrow>
   0 < i \<or> (\<exists>x \<in> set xs. has_vowel x) \<Longrightarrow> s \<in> set out \<Longrightarrow> has_vowel s"
proof (induction xs i processed rule: post_process_loop.induct)
  case (1 i processed)
  then show ?case by simp
next
  case (2 syllable rest i processed)
  show ?case
  proof (cases "has_vowel syllable")
    case True
    with "2.prems"(1) have rec: "post_process_loop rest (i + 1) (processed @ [syllable]) = Inr out"
      by simp
    have "has_vowel p" if "p \<in> set (processed @ [syllable])" for p
      using that True "2.prems"(2) by auto
    from "2.IH"(4)[OF _ rec this _ "2.prems"(4)] True show ?thesis by simp
  next
    case nv: False
    show ?thesis
    proof (cases "0 < i")
      case True
      with nv "2.prems"(1) have pne: "processed \<noteq> []"
        by (auto split: if_splits)
      with nv True "2.prems"(1)
      have rec: "post_process_loop rest (i + 1) (butlast processed @ [last processed @ syllable])
                   = Inr out"
        by simp
      have "has_vowel p" if "p \<in> set (butlast processed @ [last processed @ syllable])" for p
      proof (cases "p \<in> set (butlast processed)")
        case True
        then have "p \<in> set processed" by (rule in_set_butlastD)
        then show ?thesis by (rule "2.prems"(2))
      next
        case False
        with that have "p = last processed @ syllable" by simp
        moreover from pne have "has_vowel (last processed)" by (intro "2.prems"(2)) simp
        ultimately show ?thesis by (simp add: has_vowel_append)
      qed
      from "2.IH"(1)[OF nv True pne rec this _ "2.prems"(4)] show ?thesis by simp
    next
      case i0: False
      with "2.prems"(3) nv obtain x where x: "x \<in> set rest" "has_vowel x" by auto
      then have rne: "rest \<noteq> []" by auto
      with nv i0 "2.prems"(1)
      have rec: "post_process_loop ((syllable @ hd rest) # tl rest) (i + 1) processed = Inr out"
        by simp
      from "2.IH"(2)[OF nv i0 rne rec "2.prems"(2) _ "2.prems"(4)] show ?thesis by simp
    qed
  qed
qed

section \<open>Grids: reading and writing one cell\<close>

lemma py_index_lt: "py_index n i = Some k \<Longrightarrow> k < n"
  by (auto simp: py_index_def split: if_splits)

lemma py_index_valid: "0 \<le> i \<Longrightarrow> i < int n \<Longrightarrow> py_index n i = Some (nat i)"
  by (simp add: py_index_def)

lemma rect_nth: "rect g h w \<Longrightarrow> i < length g \<Longrightarrow> length (g ! i) = nat w"
  by (simp add: rect_def)

lemma grid_get_valid:
  "rect g h w \<Longrightarrow> 0 \<le> r \<Longrightarrow> r < h \<Longrightarrow> 0 \<le> c \<Longrightarrow> c < w \<Longrightarrow>
   grid_get g r c = Inr (g ! nat r ! nat c)"
proof -
  assume a: "rect g h w" "0 \<le> r" "r < h" "0 \<le> c" "c < w"
  then have r: "py_index (length g) r = Some (nat r)"
    by (simp add: py_index_valid rect_def)
  from a have "nat r < length g" by (simp add: rect_def)
  with a have "length (g ! nat r) = nat w" by (simp add: rect_nth)
  with a have "py_index (length (g ! nat r)) c = Some (nat c)"
    by (simp add: py_index_valid)
  with r show ?thesis by (simp add: grid_get_def)
qed

lemma grid_set_valid:
  "rect g h w \<Longrightarrow> 0 \<le> r \<Longrightarrow> r < h \<Longrightarrow> 0 \<le> c \<Longrightarrow> c < w \<Longrightarrow>
   grid_set g r c v = Inr (g[nat r := (g ! nat r)[nat c := v]])"
proof -
  assume a: "rect g h w" "0 \<le> r" "r < h" "0 \<le> c" "c < w"
  then have r: "py_index (length g) r = Some (nat r)"
    by (simp add: py_index_valid rect_def)
  from a have "nat r < length g" by (simp add: rect_def)
  with a have "length (g ! nat r) = nat w" by (simp add: rect_nth)
  with a have "py_index (length (g ! nat r)) c = Some (nat c)"
    by (simp add: py_index_valid)
  with r show ?thesis by (simp add: grid_set_def)
qed

lemma update_shape: "map length (g[r := (g ! r)[c := v]]) = map length g"
proof (rule nth_equalityI)
  show "length (map length (g[r := (g ! r)[c := v]])) = length (map length g)" by simp
next
  fix i assume "i < length (map length (g[r := (g ! r)[c := v]]))"
  then have i: "i < length g" by simp
  show "map length (g[r := (g ! r)[c := v]]) ! i = map length g ! i"
  proof (cases "i = r")
    case True
    with i show ?thesis by simp
  next
    case False
    with i show ?thesis by simp
  qed
qed

lemma rect_shape: "rect g h w = (map length g = replicate (nat h) (nat w))"
  by (auto simp: rect_def list_eq_iff_nth_eq all_set_conv_all_nth)

lemma rect_update: "rect g h w \<Longrightarrow> rect (g[i := (g ! i)[j := v]]) h w"
  by (simp add: rect_shape update_shape)

text \<open>One write: the cell that \<open>grid_get\<close> reads at an index is the cell \<open>grid_set\<close> writes.\<close>

lemma grid_get_set_same:
  "grid_get g row col = Inr cell \<Longrightarrow> grid_set g row col v = Inr g1 \<Longrightarrow>
   \<exists>r c. r < length g \<and> c < length (g ! r) \<and> g ! r ! c = cell \<and> g1 = g[r := (g ! r)[c := v]]"
  by (auto simp: grid_get_def grid_set_def split: option.splits dest: py_index_lt)

lemma grid_set_defined:
  "grid_get g row col = Inr cell \<Longrightarrow> \<exists>g1. grid_set g row col v = Inr g1"
  by (auto simp: grid_get_def grid_set_def split: option.splits)

lemma update_other:
  "i < length g \<Longrightarrow> j < length (g ! i) \<Longrightarrow> (i, j) \<noteq> (r, c) \<Longrightarrow>
   g[r := (g ! r)[c := v]] ! i ! j = g ! i ! j"
  by (cases "i = r") auto

lemma update_same:
  "r < length g \<Longrightarrow> c < length (g ! r) \<Longrightarrow> g[r := (g ! r)[c := v]] ! r ! c = v"
  by simp

section \<open>The filling loop\<close>

lemma shape_nth:
  "map length a = map length b \<Longrightarrow> i < length b \<Longrightarrow> length (a ! i) = length (b ! i)"
  by (metis length_map nth_map)

lemma shape_length: "map length a = map length b \<Longrightarrow> length a = length b"
  by (metis length_map)

lemma grid_get_shape:
  "map length a = map length b \<Longrightarrow> grid_get b row col = Inr v \<Longrightarrow>
   \<exists>r c. r < length b \<and> c < length (b ! r) \<and> v = b ! r ! c \<and> grid_get a row col = Inr (a ! r ! c)"
proof -
  assume s: "map length a = map length b" and g: "grid_get b row col = Inr v"
  from g obtain r where r: "py_index (length b) row = Some r"
    by (auto simp: grid_get_def split: option.splits)
  with g obtain c where c: "py_index (length (b ! r)) col = Some c" and v: "v = b ! r ! c"
    by (auto simp: grid_get_def split: option.splits)
  from r have rl: "r < length b" by (rule py_index_lt)
  from c have cl: "c < length (b ! r)" by (rule py_index_lt)
  from s rl have "length (a ! r) = length (b ! r)" by (rule shape_nth)
  moreover from s have "length a = length b" by (rule shape_length)
  ultimately have "grid_get a row col = Inr (a ! r ! c)"
    using r c by (simp add: grid_get_def)
  with rl cl v show ?thesis by blast
qed

lemma grid_set_get: "grid_set g row col v = Inr g1 \<Longrightarrow> grid_get g1 row col = Inr v"
proof -
  assume s: "grid_set g row col v = Inr g1"
  then obtain r where r: "py_index (length g) row = Some r"
    by (auto simp: grid_set_def split: option.splits)
  with s obtain c where c: "py_index (length (g ! r)) col = Some c"
    and g1: "g1 = g[r := (g ! r)[c := v]]"
    by (auto simp: grid_set_def split: option.splits)
  from r have rl: "r < length g" by (rule py_index_lt)
  from c have cl: "c < length (g ! r)" by (rule py_index_lt)
  from rl g1 have row: "g1 ! r = (g ! r)[c := v]" by simp
  with r c cl g1 show ?thesis by (simp add: grid_get_def)
qed

text \<open>
  A step of the loop changes the shape of the grid nowhere and its content only at a cell
  that held the marker.
\<close>

lemma fill_cells_frame:
  "fill_cells m pick g cells rs = Inr (g', rs') \<Longrightarrow>
   map length g' = map length g \<and>
   (\<forall>i j. i < length g \<longrightarrow> j < length (g ! i) \<longrightarrow> g ! i ! j \<noteq> m \<longrightarrow> g' ! i ! j = g ! i ! j)"
proof (induction cells arbitrary: g rs)
  case Nil
  then show ?case by simp
next
  case (Cons cell cells)
  obtain row col where cell: "cell = (row, col)" by (cases cell)
  from Cons.prems cell obtain v where v: "grid_get g row col = Inr v"
    by (auto split: sum.splits)
  show ?case
  proof (cases "v = m")
    case False
    with Cons.prems cell v have "fill_cells m pick g cells rs = Inr (g', rs')" by simp
    then show ?thesis by (rule Cons.IH)
  next
    case True
    with Cons.prems cell v obtain letter rs1 g1 where
      p: "pick rs = Inr (letter, rs1)" and s: "grid_set g row col letter = Inr g1"
      and f: "fill_cells m pick g1 cells rs1 = Inr (g', rs')"
      by (auto split: sum.splits prod.splits)
    from grid_get_set_same[OF v s] obtain r c where
      rc: "r < length g" "c < length (g ! r)" "g ! r ! c = v" "g1 = g[r := (g ! r)[c := letter]]"
      by blast
    have sh1: "map length g1 = map length g" using rc(4) by (simp add: update_shape)
    from Cons.IH[OF f] have sh': "map length g' = map length g1"
      and fr: "\<And>i j. i < length g1 \<Longrightarrow> j < length (g1 ! i) \<Longrightarrow> g1 ! i ! j \<noteq> m \<Longrightarrow>
                 g' ! i ! j = g1 ! i ! j"
      by blast+
    have "g' ! i ! j = g ! i ! j"
      if ij: "i < length g" "j < length (g ! i)" "g ! i ! j \<noteq> m" for i j
    proof -
      from ij rc True have ne: "(i, j) \<noteq> (r, c)" by auto
      with ij rc(4) have eq: "g1 ! i ! j = g ! i ! j" by (simp add: update_other)
      from sh1 ij(1) have "length (g1 ! i) = length (g ! i)" by (rule shape_nth)
      moreover from sh1 have "length g1 = length g" by (rule shape_length)
      ultimately have "i < length g1" "j < length (g1 ! i)" "g1 ! i ! j \<noteq> m"
        using ij eq by simp_all
      then have "g' ! i ! j = g1 ! i ! j" by (rule fr)
      with eq show ?thesis by simp
    qed
    with sh' sh1 show ?thesis by simp
  qed
qed

lemma fill_cells_frame_get:
  assumes "fill_cells m pick g cells rs = Inr (g', rs')"
    and "grid_get g row col = Inr v" and "v \<noteq> m"
  shows "grid_get g' row col = Inr v"
proof -
  from fill_cells_frame[OF assms(1)] have sh: "map length g' = map length g"
    and fr: "\<And>i j. i < length g \<Longrightarrow> j < length (g ! i) \<Longrightarrow> g ! i ! j \<noteq> m \<Longrightarrow>
               g' ! i ! j = g ! i ! j"
    by blast+
  from grid_get_shape[OF sh assms(2)] obtain r c where
    rc: "r < length g" "c < length (g ! r)" "v = g ! r ! c" "grid_get g' row col = Inr (g' ! r ! c)"
    by blast
  with assms(3) fr[of r c] show ?thesis by simp
qed

text \<open>
  What the loop leaves in each cell: the old content, or where the marker stood a letter that
  \<open>pick\<close> returned.
\<close>

lemma fill_cells_content:
  assumes "fill_cells m pick g cells rs = Inr (g', rs')"
    and "\<And>rs l rs1. pick rs = Inr (l, rs1) \<Longrightarrow> good l \<and> l \<noteq> m"
    and "i < length g" and "j < length (g ! i)"
  shows "g' ! i ! j = g ! i ! j \<or> (g ! i ! j = m \<and> good (g' ! i ! j))"
  using assms(1,3,4)
proof (induction cells arbitrary: g rs)
  case Nil
  then show ?case by simp
next
  case (Cons cell cells)
  obtain row col where cell: "cell = (row, col)" by (cases cell)
  from Cons.prems cell obtain v where v: "grid_get g row col = Inr v"
    by (auto split: sum.splits)
  show ?case
  proof (cases "v = m")
    case False
    with Cons.prems cell v have "fill_cells m pick g cells rs = Inr (g', rs')" by simp
    then show ?thesis using Cons.prems(2,3) by (rule Cons.IH)
  next
    case True
    with Cons.prems cell v obtain letter rs1 g1 where
      p: "pick rs = Inr (letter, rs1)" and s: "grid_set g row col letter = Inr g1"
      and f: "fill_cells m pick g1 cells rs1 = Inr (g', rs')"
      by (auto split: sum.splits prod.splits)
    from grid_get_set_same[OF v s] obtain r c where
      rc: "r < length g" "c < length (g ! r)" "g ! r ! c = v" "g1 = g[r := (g ! r)[c := letter]]"
      by blast
    have sh1: "map length g1 = map length g" using rc(4) by (simp add: update_shape)
    from sh1 Cons.prems(2) have l1: "length (g1 ! i) = length (g ! i)" by (rule shape_nth)
    from sh1 have "length g1 = length g" by (rule shape_length)
    with Cons.prems(2) have i1: "i < length g1" by simp
    from l1 Cons.prems(3) have j1: "j < length (g1 ! i)" by simp
    from p have good: "good letter" "letter \<noteq> m" using assms(2) by blast+
    show ?thesis
    proof (cases "(i, j) = (r, c)")
      case same: True
      with rc have "g1 ! i ! j = letter" by simp
      moreover from fill_cells_frame[OF f] i1 j1 good(2) calculation
      have "g' ! i ! j = g1 ! i ! j" by simp
      ultimately show ?thesis using good same rc True by simp
    next
      case other: False
      with Cons.prems(2,3) rc(4) have "g1 ! i ! j = g ! i ! j" by (simp add: update_other)
      with Cons.IH[OF f i1 j1] show ?thesis by auto
    qed
  qed
qed

text \<open>A cell the loop has visited does not hold the marker afterwards.\<close>

lemma fill_cells_visited:
  assumes "fill_cells m pick g cells rs = Inr (g', rs')"
    and "\<And>rs l rs1. pick rs = Inr (l, rs1) \<Longrightarrow> l \<noteq> m"
    and "(row, col) \<in> set cells"
  shows "\<exists>v. grid_get g' row col = Inr v \<and> v \<noteq> m"
  using assms(1,3)
proof (induction cells arbitrary: g rs)
  case Nil
  then show ?case by simp
next
  case (Cons cell cells)
  obtain row0 col0 where cell: "cell = (row0, col0)" by (cases cell)
  from Cons.prems cell obtain v where v: "grid_get g row0 col0 = Inr v"
    by (auto split: sum.splits)
  show ?case
  proof (cases "v = m")
    case False
    with Cons.prems cell v have f: "fill_cells m pick g cells rs = Inr (g', rs')" by simp
    show ?thesis
    proof (cases "(row, col) = (row0, col0)")
      case True
      with v False fill_cells_frame_get[OF f] show ?thesis by auto
    next
      case False
      with Cons.prems(2) cell have "(row, col) \<in> set cells" by auto
      with f show ?thesis by (rule Cons.IH)
    qed
  next
    case True
    with Cons.prems cell v obtain letter rs1 g1 where
      p: "pick rs = Inr (letter, rs1)" and s: "grid_set g row0 col0 letter = Inr g1"
      and f: "fill_cells m pick g1 cells rs1 = Inr (g', rs')"
      by (auto split: sum.splits prod.splits)
    show ?thesis
    proof (cases "(row, col) = (row0, col0)")
      case same: True
      from s have "grid_get g1 row0 col0 = Inr letter" by (rule grid_set_get)
      moreover from p have "letter \<noteq> m" by (rule assms(2))
      ultimately show ?thesis using same fill_cells_frame_get[OF f] by auto
    next
      case False
      with Cons.prems(2) cell have "(row, col) \<in> set cells" by auto
      with f show ?thesis by (rule Cons.IH)
    qed
  qed
qed

text \<open>On a grid of the announced shape the loop raises nothing.\<close>

lemma fill_cells_total:
  assumes "rect g h w"
    and "\<And>rs. \<exists>l rs1. pick rs = Inr (l, rs1)"
    and "\<And>row col. (row, col) \<in> set cells \<Longrightarrow> 0 \<le> row \<and> row < h \<and> 0 \<le> col \<and> col < w"
  shows "\<exists>g' rs'. fill_cells m pick g cells rs = Inr (g', rs')"
  using assms(1,3)
proof (induction cells arbitrary: g rs)
  case Nil
  then show ?case by simp
next
  case (Cons cell cells)
  obtain row col where cell: "cell = (row, col)" by (cases cell)
  with Cons.prems(2) have b: "0 \<le> row" "row < h" "0 \<le> col" "col < w" by auto
  have g: "grid_get g row col = Inr (g ! nat row ! nat col)"
    using Cons.prems(1) b by (rule grid_get_valid)
  have rest: "\<And>row col. (row, col) \<in> set cells \<Longrightarrow> 0 \<le> row \<and> row < h \<and> 0 \<le> col \<and> col < w"
    using Cons.prems(2) by auto
  show ?case
  proof (cases "g ! nat row ! nat col = m")
    case False
    with g cell Cons.IH[OF Cons.prems(1) rest] show ?thesis by simp
  next
    case True
    from assms(2) obtain l rs1 where p: "pick rs = Inr (l, rs1)" by blast
    have s: "grid_set g row col l = Inr (g[nat row := (g ! nat row)[nat col := l]])"
      using Cons.prems(1) b by (rule grid_set_valid)
    have "rect (g[nat row := (g ! nat row)[nat col := l]]) h w"
      using Cons.prems(1) by (rule rect_update)
    from Cons.IH[OF this rest] g cell True p s show ?thesis by simp
  qed
qed

lemma range_cells_iff:
  "(row, col) \<in> set (range_cells h w) \<longleftrightarrow> 0 \<le> row \<and> row < h \<and> 0 \<le> col \<and> col < w"
proof -
  have r: "i \<in> set (py_range n) \<longleftrightarrow> 0 \<le> i \<and> i < n" for n i
  proof
    assume "i \<in> set (py_range n)"
    then show "0 \<le> i \<and> i < n" by (auto simp: py_range_def)
  next
    assume "0 \<le> i \<and> i < n"
    then have "nat i \<in> {0..<nat n}" "i = int (nat i)" by auto
    then show "i \<in> set (py_range n)" unfolding py_range_def set_map set_upt by (rule rev_image_eqI)
  qed
  have "(row, col) \<in> set (range_cells h w)
          \<longleftrightarrow> row \<in> set (py_range h) \<and> col \<in> set (py_range w)"
    by (auto simp: range_cells_def)
  then show ?thesis by (simp add: r)
qed

section \<open>Paths of GridGenerator\<close>

lemma syllable_positions_valid:
  "syllable_positions self chars d r c = Some (ps, r', c') \<Longrightarrow> x \<in> set ps \<Longrightarrow> valid_cell self x"
proof (induction chars arbitrary: r c ps)
  case Nil
  then show ?case by simp
next
  case (Cons ch chars)
  from Cons.prems(1) obtain ps1 where
    v: "is_valid_position self r c" and
    rec: "syllable_positions self chars d (r + fst (direction_value d)) (c + snd (direction_value d))
            = Some (ps1, r', c')" and
    pseq: "ps = (r, c, d) # ps1"
    by (auto split: if_splits option.splits)
  show ?case
  proof (cases "x = (r, c, d)")
    case True
    with v show ?thesis by (simp add: valid_cell_def)
  next
    case False
    with Cons.prems(2) pseq have "x \<in> set ps1" by simp
    with rec show ?thesis by (rule Cons.IH)
  qed
qed

lemma syllable_positions_length:
  "syllable_positions self chars d r c = Some (ps, r', c') \<Longrightarrow> length ps = length chars"
  by (induction chars arbitrary: r c ps) (auto split: if_splits option.splits)


lemma available_directions_nonempty: "available_directions i path \<noteq> []"
proof -
  have "remove1 d list_Direction \<noteq> []" for d
    by (cases d) (simp_all add: list_Direction_def)
  then show ?thesis by (simp add: available_directions_def list_Direction_def)
qed

lemma py_choice_defined: "xs \<noteq> [] \<Longrightarrow> \<exists>x rs1. py_choice xs rs = Inr (x, rs1) \<and> x \<in> set xs"
  by (simp add: py_choice_def)

lemma py_choice_member: "py_choice xs rs = Inr (x, rs1) \<Longrightarrow> x \<in> set xs"
  by (auto simp: py_choice_def split: if_splits)

text \<open>The path loop only appends cells inside the grid, and never raises.\<close>

lemma syllable_path_loop_valid:
  "syllable_path_loop self syls i path r c rs = Inr (Some p, rs') \<Longrightarrow>
   (\<And>x. x \<in> set path \<Longrightarrow> valid_cell self x) \<Longrightarrow> x \<in> set p \<Longrightarrow> valid_cell self x"
proof (induction syls arbitrary: i path r c rs)
  case Nil
  then show ?case by simp
next
  case (Cons s syls)
  from Cons.prems(1) obtain d rs1 ps r1 c1 where
    sp: "syllable_positions self (syl_text s) d r c = Some (ps, r1, c1)" and
    rec: "syllable_path_loop self syls (i + 1) (path @ ps) r1 c1 rs1 = Inr (Some p, rs')"
    by (auto split: sum.splits option.splits prod.splits)
  have "valid_cell self y" if "y \<in> set (path @ ps)" for y
  proof (cases "y \<in> set path")
    case True
    then show ?thesis by (rule Cons.prems(2))
  next
    case False
    with that have "y \<in> set ps" by simp
    with sp show ?thesis by (rule syllable_positions_valid)
  qed
  with rec show ?case using Cons.prems(3) by (rule Cons.IH)
qed

lemma syllable_path_loop_length:
  "syllable_path_loop self syls i path r c rs = Inr (Some p, rs') \<Longrightarrow>
   length p = length path + length (concat (map syl_text syls))"
proof (induction syls arbitrary: i path r c rs)
  case Nil
  then show ?case by simp
next
  case (Cons s syls)
  from Cons.prems(1) obtain d rs1 ps r1 c1 where
    sp: "syllable_positions self (syl_text s) d r c = Some (ps, r1, c1)" and
    rec: "syllable_path_loop self syls (i + 1) (path @ ps) r1 c1 rs1 = Inr (Some p, rs')"
    by (auto split: sum.splits option.splits prod.splits)
  from Cons.IH[OF rec] syllable_positions_length[OF sp] show ?case by simp
qed

lemma syllable_path_loop_total:
  "\<exists>res rs'. syllable_path_loop self syls i path r c rs = Inr (res, rs')"
proof (induction syls arbitrary: i path r c rs)
  case Nil
  then show ?case by simp
next
  case (Cons s syls)
  from py_choice_defined[OF available_directions_nonempty] obtain d rs1 where
    ch: "py_choice (available_directions i path) rs = Inr (d, rs1)" by blast
  show ?case
  proof (cases "syllable_positions self (syl_text s) d r c")
    case None
    with ch show ?thesis by simp
  next
    case (Some t)
    obtain ps r1 c1 where "t = (ps, r1, c1)" by (cases t)
    with Some ch Cons.IH[of "i + 1" "path @ ps" r1 c1 rs1] show ?thesis by simp
  qed
qed

lemma generate_syllable_path_valid:
  "generate_syllable_path self word_data start_row start_col rs = Inr (Some p, rs') \<Longrightarrow>
   x \<in> set p \<Longrightarrow> valid_cell self x"
  unfolding generate_syllable_path_def
  by (erule syllable_path_loop_valid) simp_all

section \<open>Checking and committing a path\<close>

lemma can_place_loop_total:
  "grid_ok self \<Longrightarrow> i + length path \<le> length w \<Longrightarrow> \<exists>b. can_place_loop self w i path = Inr b"
proof (induction path arbitrary: i)
  case Nil
  then show ?case by auto
next
  case (Cons x path)
  obtain r c d where x: "x = (r, c, d)" by (cases x)
  from Cons.prems(2) have i: "i < length w" "Suc i + length path \<le> length w" by simp_all
  from Cons.IH[OF Cons.prems(1) i(2)] obtain b where b: "can_place_loop self w (Suc i) path = Inr b"
    by blast
  show ?case
  proof (cases "is_valid_position self r c")
    case False
    with x show ?thesis by auto
  next
    case True
    with Cons.prems(1) have "grid_get (grid self) r c = Inr (grid self ! nat r ! nat c)"
      by (auto simp: grid_ok_def is_valid_position_def intro: grid_get_valid)
    with x True i b show ?thesis by auto
  qed
qed

lemma can_place_word_at_path_total:
  "grid_ok self \<Longrightarrow> \<exists>b. can_place_word_at_path self w path = Inr b"
  using can_place_loop_total[of self 0 path w] by (auto simp: can_place_word_at_path_def)

text \<open>
  What an accepted path guarantees: each of its cells is inside the grid and is empty or
  holds the letter the word has at that index.
\<close>

lemma can_place_loop_true:
  "can_place_loop self w i path = Inr True \<Longrightarrow> k < length path \<Longrightarrow> path ! k = (r, c, d) \<Longrightarrow>
   is_valid_position self r c \<and>
   (grid_get (grid self) r c = Inr [] \<or>
    (i + k < length w \<and> grid_get (grid self) r c = Inr [w ! (i + k)]))"
proof (induction path arbitrary: i k)
  case Nil
  then show ?case by simp
next
  case (Cons x path)
  obtain r0 c0 d0 where x: "x = (r0, c0, d0)" by (cases x)
  from Cons.prems(1) x have v: "is_valid_position self r0 c0"
    by (auto split: if_splits)
  from Cons.prems(1) x v obtain cell where cell: "grid_get (grid self) r0 c0 = Inr cell"
    by (auto split: sum.splits)
  from Cons.prems(1) x v cell have ok: "cell = [] \<or> (i < length w \<and> cell = [w ! i])"
    by (auto split: if_splits)
  from Cons.prems(1) x v cell have rec: "can_place_loop self w (Suc i) path = Inr True"
    by (auto split: if_splits)
  show ?case
  proof (cases k)
    case 0
    with Cons.prems(3) x v cell ok show ?thesis by auto
  next
    case (Suc k')
    with Cons.prems(2,3) have "k' < length path" "path ! k' = (r, c, d)" by simp_all
    from Cons.IH[OF rec this] Suc show ?thesis by simp
  qed
qed

lemma can_place_word_at_path_true:
  assumes "can_place_word_at_path self w path = Inr True"
  shows "length path = length w"
    and "k < length path \<Longrightarrow> path ! k = (r, c, d) \<Longrightarrow>
         is_valid_position self r c \<and>
         (grid_get (grid self) r c = Inr [] \<or> grid_get (grid self) r c = Inr [w ! k])"
proof -
  from assms show len: "length path = length w"
    by (auto simp: can_place_word_at_path_def split: if_splits)
  with assms have "can_place_loop self w 0 path = Inr True"
    by (simp add: can_place_word_at_path_def)
  from can_place_loop_true[OF this]
  show "k < length path \<Longrightarrow> path ! k = (r, c, d) \<Longrightarrow>
         is_valid_position self r c \<and>
         (grid_get (grid self) r c = Inr [] \<or> grid_get (grid self) r c = Inr [w ! k])"
    by fastforce
qed

lemma place_loop_ConsE:
  assumes "place_loop wd i ((r, c, d) # rest) g segs idx chars = Inr (g', segs')"
  obtains g1 st idx1 chars1 where
    "i < length (wd_word wd)"
    "grid_set g r c [wd_word wd ! i] = Inr g1"
    "place_loop wd (Suc i) rest g1 (segs @ [((r, c, d), st)]) idx1 chars1 = Inr (g', segs')"
  using assms by (auto simp: Let_def split: if_splits sum.splits prod.splits)

lemma place_loop_Cons_step:
  assumes "i < length (wd_word wd)" and "grid_set g r c [wd_word wd ! i] = Inr g1"
  shows "\<exists>st idx1 chars1.
           place_loop wd i ((r, c, d) # rest) g segs idx chars
             = place_loop wd (Suc i) rest g1 (segs @ [((r, c, d), st)]) idx1 chars1"
  using assms by (auto simp: Let_def split: prod.splits)

text \<open>
  Committing a path of cells inside the grid, no longer than the rest of the word, raises
  nothing, keeps the shape of the grid and records the path as it was given.
\<close>

lemma place_loop_total:
  assumes "rect g h w0"
    and "\<And>x. x \<in> set path \<Longrightarrow> 0 \<le> fst x \<and> fst x < h \<and> 0 \<le> fst (snd x) \<and> fst (snd x) < w0"
    and "i + length path \<le> length (wd_word wd)"
  shows "\<exists>g' segs'. place_loop wd i path g segs idx chars = Inr (g', segs')
           \<and> rect g' h w0 \<and> map fst segs' = map fst segs @ path"
  using assms
proof (induction path arbitrary: i g segs idx chars)
  case Nil
  then show ?case by simp
next
  case (Cons x path)
  obtain r c d where x: "x = (r, c, d)" by (cases x)
  from Cons.prems(2)[of x] x have b: "0 \<le> r" "r < h" "0 \<le> c" "c < w0" by simp_all
  from Cons.prems(3) have i: "i < length (wd_word wd)" "Suc i + length path \<le> length (wd_word wd)"
    by simp_all
  let ?g1 = "g[nat r := (g ! nat r)[nat c := [wd_word wd ! i]]]"
  have s: "grid_set g r c [wd_word wd ! i] = Inr ?g1"
    using Cons.prems(1) b by (rule grid_set_valid)
  have r1: "rect ?g1 h w0" using Cons.prems(1) by (rule rect_update)
  from place_loop_Cons_step[OF i(1) s, of d path segs idx chars] obtain st idx1 chars1 where
    step: "place_loop wd i ((r, c, d) # path) g segs idx chars
             = place_loop wd (Suc i) path ?g1 (segs @ [((r, c, d), st)]) idx1 chars1"
    by blast
  have rest: "\<And>y. y \<in> set path \<Longrightarrow> 0 \<le> fst y \<and> fst y < h \<and> 0 \<le> fst (snd y) \<and> fst (snd y) < w0"
    using Cons.prems(2) by simp
  from Cons.IH[OF r1 rest i(2), of "segs @ [((r, c, d), st)]" idx1 chars1]
  show ?case using step x by auto
qed

text \<open>The grid after the commit: a cell off the path is untouched.\<close>

lemma place_loop_off_path:
  assumes "place_loop wd i path g segs idx chars = Inr (g', segs')"
    and "rect g h w0"
    and "\<And>x. x \<in> set path \<Longrightarrow> 0 \<le> fst x \<and> fst x < h \<and> 0 \<le> fst (snd x) \<and> fst (snd x) < w0"
    and "a < length g" and "b < length (g ! a)"
    and "\<And>x. x \<in> set path \<Longrightarrow> (nat (fst x), nat (fst (snd x))) \<noteq> (a, b)"
  shows "g' ! a ! b = g ! a ! b"
  using assms
proof (induction path arbitrary: i g segs idx chars)
  case Nil
  then show ?case by simp
next
  case (Cons x path)
  obtain r c d where x: "x = (r, c, d)" by (cases x)
  from Cons.prems(3)[of x] x have bd: "0 \<le> r" "r < h" "0 \<le> c" "c < w0" by simp_all
  from Cons.prems(1) have "place_loop wd i ((r, c, d) # path) g segs idx chars = Inr (g', segs')"
    unfolding x .
  then obtain g1 st idx1 chars1 where
    il: "i < length (wd_word wd)" and
    s: "grid_set g r c [wd_word wd ! i] = Inr g1" and
    rec: "place_loop wd (Suc i) path g1 (segs @ [((r, c, d), st)]) idx1 chars1 = Inr (g', segs')"
    by (rule place_loop_ConsE)
  have g1: "g1 = g[nat r := (g ! nat r)[nat c := [wd_word wd ! i]]]"
    using grid_set_valid[OF Cons.prems(2) bd] s by simp
  have r1: "rect g1 h w0" unfolding g1 using Cons.prems(2) by (rule rect_update)
  have sh: "map length g1 = map length g" unfolding g1 by (rule update_shape)
  from sh have a1: "a < length g1" using Cons.prems(4) shape_length[OF sh] by simp
  from sh Cons.prems(4) have "length (g1 ! a) = length (g ! a)" by (rule shape_nth)
  with Cons.prems(5) have b1: "b < length (g1 ! a)" by simp
  from Cons.prems(6)[of x] x have "(a, b) \<noteq> (nat r, nat c)" by auto
  with Cons.prems(4,5) have eq: "g1 ! a ! b = g ! a ! b" unfolding g1 by (rule update_other)
  have "g' ! a ! b = g1 ! a ! b"
    using rec r1 _ a1 b1
  proof (rule Cons.IH)
    fix y assume "y \<in> set path"
    then show "0 \<le> fst y \<and> fst y < h \<and> 0 \<le> fst (snd y) \<and> fst (snd y) < w0"
      using Cons.prems(3) by simp
  next
    fix y assume "y \<in> set path"
    then show "(nat (fst y), nat (fst (snd y))) \<noteq> (a, b)" using Cons.prems(6) by simp
  qed
  with eq show ?case by simp
qed

text \<open>
  Where the path visits no cell twice, the commit leaves at the \<open>k\<close>-th cell of the path
  the \<open>k\<close>-th letter it wrote.
\<close>

lemma place_loop_written:
  assumes "place_loop wd i path g segs idx chars = Inr (g', segs')"
    and "rect g h w0"
    and "\<And>x. x \<in> set path \<Longrightarrow> 0 \<le> fst x \<and> fst x < h \<and> 0 \<le> fst (snd x) \<and> fst (snd x) < w0"
    and "distinct (path_coords path)"
    and "k < length path" and "path ! k = (r, c, d)"
  shows "g' ! nat r ! nat c = [wd_word wd ! (i + k)]"
  using assms
proof (induction path arbitrary: i g segs idx chars k)
  case Nil
  then show ?case by simp
next
  case (Cons x path)
  obtain r0 c0 d0 where x: "x = (r0, c0, d0)" by (cases x)
  from Cons.prems(3)[of x] x have bd: "0 \<le> r0" "r0 < h" "0 \<le> c0" "c0 < w0" by simp_all
  from Cons.prems(1) have "place_loop wd i ((r0, c0, d0) # path) g segs idx chars = Inr (g', segs')"
    unfolding x .
  then obtain g1 st idx1 chars1 where
    s: "grid_set g r0 c0 [wd_word wd ! i] = Inr g1" and
    rec: "place_loop wd (Suc i) path g1 (segs @ [((r0, c0, d0), st)]) idx1 chars1 = Inr (g', segs')"
    by (rule place_loop_ConsE)
  have g1: "g1 = g[nat r0 := (g ! nat r0)[nat c0 := [wd_word wd ! i]]]"
    using grid_set_valid[OF Cons.prems(2) bd] s by simp
  have r1: "rect g1 h w0" unfolding g1 using Cons.prems(2) by (rule rect_update)
  have rest: "\<And>y. y \<in> set path \<Longrightarrow> 0 \<le> fst y \<and> fst y < h \<and> 0 \<le> fst (snd y) \<and> fst (snd y) < w0"
    using Cons.prems(3) by simp
  from Cons.prems(4) x have dist: "distinct (path_coords path)" and
    fresh: "(r0, c0) \<notin> set (path_coords path)"
    by (simp_all add: path_coords_def)
  from Cons.prems(2) bd have a0: "nat r0 < length g" by (simp add: rect_def)
  with Cons.prems(2) bd have b0: "nat c0 < length (g ! nat r0)" by (simp add: rect_nth)
  show ?case
  proof (cases k)
    case 0
    with Cons.prems(6) x have rc: "r = r0" "c = c0" by simp_all
    have sh: "map length g1 = map length g" unfolding g1 by (rule update_shape)
    have a1: "nat r0 < length g1" using a0 shape_length[OF sh] by simp
    from sh a0 have "length (g1 ! nat r0) = length (g ! nat r0)" by (rule shape_nth)
    with b0 have b1: "nat c0 < length (g1 ! nat r0)" by simp
    have "g' ! nat r0 ! nat c0 = g1 ! nat r0 ! nat c0"
      using rec r1 rest a1 b1
    proof (rule place_loop_off_path)
      fix y assume y: "y \<in> set path"
      from rest[OF y] have nn: "0 \<le> fst y" "0 \<le> fst (snd y)" by simp_all
      obtain yr yc yd where yy: "y = (yr, yc, yd)" by (cases y)
      with y have "(\<lambda>(row, col, direction). (row, col)) y \<in> set (path_coords path)"
        unfolding path_coords_def set_map by (intro imageI)
      with yy have "(fst y, fst (snd y)) \<in> set (path_coords path)" by simp
      with fresh have "(fst y, fst (snd y)) \<noteq> (r0, c0)" by auto
      with nn bd show "(nat (fst y), nat (fst (snd y))) \<noteq> (nat r0, nat c0)" by auto
    qed
    also have "\<dots> = [wd_word wd ! i]" unfolding g1 using a0 b0 by simp
    finally show ?thesis using rc 0 by simp
  next
    case (Suc k')
    with Cons.prems(5,6) have "k' < length path" "path ! k' = (r, c, d)" by simp_all
    from Cons.IH[OF rec r1 rest dist this] Suc show ?thesis by simp
  qed
qed

text \<open>
  Where every cell of the path is empty or already holds the letter to be written, as
  \<open>_can_place_word_at_path\<close> demands of the grid \<open>g0\<close> it inspects, the commit changes no
  cell that held a letter in \<open>g0\<close>.
\<close>

lemma place_loop_keeps:
  assumes "place_loop wd i path g segs idx chars = Inr (g', segs')"
    and "rect g h w0"
    and "\<And>x. x \<in> set path \<Longrightarrow> 0 \<le> fst x \<and> fst x < h \<and> 0 \<le> fst (snd x) \<and> fst (snd x) < w0"
    and "\<And>a b. a < nat h \<Longrightarrow> b < nat w0 \<Longrightarrow> g0 ! a ! b \<noteq> [] \<Longrightarrow> g ! a ! b = g0 ! a ! b"
    and "\<And>k r c d. k < length path \<Longrightarrow> path ! k = (r, c, d) \<Longrightarrow>
           g0 ! nat r ! nat c = [] \<or> g0 ! nat r ! nat c = [wd_word wd ! (i + k)]"
    and "a < nat h" and "b < nat w0" and "g0 ! a ! b \<noteq> []"
  shows "g' ! a ! b = g0 ! a ! b"
  using assms
proof (induction path arbitrary: i g segs idx chars)
  case Nil
  then show ?case by simp
next
  case (Cons x path)
  obtain r0 c0 d0 where x: "x = (r0, c0, d0)" by (cases x)
  from Cons.prems(3)[of x] x have bd: "0 \<le> r0" "r0 < h" "0 \<le> c0" "c0 < w0" by simp_all
  from Cons.prems(1) have "place_loop wd i ((r0, c0, d0) # path) g segs idx chars = Inr (g', segs')"
    unfolding x .
  then obtain g1 st idx1 chars1 where
    s: "grid_set g r0 c0 [wd_word wd ! i] = Inr g1" and
    rec: "place_loop wd (Suc i) path g1 (segs @ [((r0, c0, d0), st)]) idx1 chars1 = Inr (g', segs')"
    by (rule place_loop_ConsE)
  have g1: "g1 = g[nat r0 := (g ! nat r0)[nat c0 := [wd_word wd ! i]]]"
    using grid_set_valid[OF Cons.prems(2) bd] s by simp
  have r1: "rect g1 h w0" unfolding g1 using Cons.prems(2) by (rule rect_update)
  have rest: "\<And>y. y \<in> set path \<Longrightarrow> 0 \<le> fst y \<and> fst y < h \<and> 0 \<le> fst (snd y) \<and> fst (snd y) < w0"
    using Cons.prems(3) by simp
  have agree1: "g1 ! a' ! b' = g0 ! a' ! b'"
    if ab: "a' < nat h" "b' < nat w0" "g0 ! a' ! b' \<noteq> []" for a' b'
  proof (cases "(a', b') = (nat r0, nat c0)")
    case True
    from Cons.prems(5)[of 0 r0 c0 d0] x ab True
    have "g0 ! a' ! b' = [wd_word wd ! i]" by auto
    moreover from Cons.prems(2) ab True have "a' < length g" "b' < length (g ! a')"
      by (simp_all add: rect_def rect_nth)
    ultimately show ?thesis unfolding g1 using True by simp
  next
    case False
    from Cons.prems(2) ab have "a' < length g" by (simp add: rect_def)
    moreover with Cons.prems(2) ab have "b' < length (g ! a')" by (simp add: rect_nth)
    ultimately have "g1 ! a' ! b' = g ! a' ! b'" unfolding g1 using False by (rule update_other)
    with Cons.prems(4)[OF ab] show ?thesis by simp
  qed
  have acc1: "g0 ! nat r ! nat c = [] \<or> g0 ! nat r ! nat c = [wd_word wd ! (Suc i + k)]"
    if "k < length path" "path ! k = (r, c, d)" for k r c d
    using Cons.prems(5)[of "Suc k" r c d] that by simp
  from Cons.IH[OF rec r1 rest agree1 acc1 Cons.prems(6,7,8)] show ?case by simp
qed

lemma cells_in_update:
  assumes "cells_in A g" and "ch \<in> A"
  shows "cells_in A (g[a := (g ! a)[b := [ch]]])"
proof -
  have "cell = [] \<or> (\<exists>ch \<in> A. cell = [ch])"
    if "row \<in> set (g[a := (g ! a)[b := [ch]]])" "cell \<in> set row" for row cell
  proof (cases "row \<in> set g")
    case True
    with assms(1) that(2) show ?thesis by (auto simp: cells_in_def)
  next
    case False
    have a: "a < length g"
    proof (rule ccontr)
      assume "\<not> a < length g"
      then have "length g \<le> a" by simp
      then have "g[a := (g ! a)[b := [ch]]] = g" by (rule list_update_beyond)
      with that(1) False show False by simp
    qed
    from that(1) False have row: "row = (g ! a)[b := [ch]]"
      using set_update_subset_insert[of g a "(g ! a)[b := [ch]]"] by auto
    show ?thesis
    proof (cases "cell \<in> set (g ! a)")
      case True
      with a assms(1) show ?thesis by (auto simp: cells_in_def)
    next
      case False
      with that(2) row have "cell = [ch]"
        using set_update_subset_insert[of "g ! a" b "[ch]"] by auto
      with assms(2) show ?thesis by auto
    qed
  qed
  then show ?thesis by (auto simp: cells_in_def)
qed

lemma place_loop_cells_in:
  assumes "place_loop wd i path g segs idx chars = Inr (g', segs')"
    and "rect g h w0"
    and "\<And>x. x \<in> set path \<Longrightarrow> 0 \<le> fst x \<and> fst x < h \<and> 0 \<le> fst (snd x) \<and> fst (snd x) < w0"
    and "cells_in A g" and "set (wd_word wd) \<subseteq> A"
  shows "cells_in A g'"
  using assms
proof (induction path arbitrary: i g segs idx chars)
  case Nil
  then show ?case by simp
next
  case (Cons x path)
  obtain r0 c0 d0 where x: "x = (r0, c0, d0)" by (cases x)
  from Cons.prems(3)[of x] x have bd: "0 \<le> r0" "r0 < h" "0 \<le> c0" "c0 < w0" by simp_all
  from Cons.prems(1) have "place_loop wd i ((r0, c0, d0) # path) g segs idx chars = Inr (g', segs')"
    unfolding x .
  then obtain g1 st idx1 chars1 where
    il: "i < length (wd_word wd)" and
    s: "grid_set g r0 c0 [wd_word wd ! i] = Inr g1" and
    rec: "place_loop wd (Suc i) path g1 (segs @ [((r0, c0, d0), st)]) idx1 chars1 = Inr (g', segs')"
    by (rule place_loop_ConsE)
  have g1: "g1 = g[nat r0 := (g ! nat r0)[nat c0 := [wd_word wd ! i]]]"
    using grid_set_valid[OF Cons.prems(2) bd] s by simp
  have r1: "rect g1 h w0" unfolding g1 using Cons.prems(2) by (rule rect_update)
  have rest: "\<And>y. y \<in> set path \<Longrightarrow> 0 \<le> fst y \<and> fst y < h \<and> 0 \<le> fst (snd y) \<and> fst (snd y) < w0"
    using Cons.prems(3) by simp
  from il Cons.prems(5) have "wd_word wd ! i \<in> A" by auto
  with Cons.prems(4) have "cells_in A g1" unfolding g1 by (rule cells_in_update)
  from Cons.IH[OF rec r1 rest this Cons.prems(5)] show ?case .
qed

section \<open>One placement of GridGenerator\<close>

lemma valid_cell_bounds:
  "valid_cell self x \<Longrightarrow>
   0 \<le> fst x \<and> fst x < height self \<and> 0 \<le> fst (snd x) \<and> fst (snd x) < width self"
  by (simp add: valid_cell_def is_valid_position_def)

lemma can_place_valid_cells:
  assumes "can_place_word_at_path self w path = Inr True" and "x \<in> set path"
  shows "valid_cell self x"
proof -
  from assms(2) obtain k where k: "k < length path" "path ! k = x" by (auto simp: in_set_conv_nth)
  obtain r c d where x: "x = (r, c, d)" by (cases x)
  from can_place_word_at_path_true(2)[OF assms(1) k(1)] k(2) x
  show ?thesis by (simp add: valid_cell_def)
qed

text \<open>
  An accepted, non-empty path is committed without an exception; the grid keeps its shape,
  the record holds the path, and the list of placed words is not touched.
\<close>

lemma place_word_at_path_accepted:
  assumes ok: "grid_ok self" and ne: "path \<noteq> []"
    and acc: "can_place_word_at_path self (wd_word wd) path = Inr True"
  shows "\<exists>pw self'. place_word_at_path self wd path = Inr (pw, self')
           \<and> grid_ok self' \<and> width self' = width self \<and> height self' = height self
           \<and> placed_words self' = placed_words self
           \<and> map fst (pw_segments pw) = path \<and> pw_word_data pw = wd
           \<and> (\<forall>A. cells_in A (grid self) \<longrightarrow> set (wd_word wd) \<subseteq> A \<longrightarrow> cells_in A (grid self'))"
proof -
  have r: "rect (grid self) (height self) (width self)" using ok by (simp add: grid_ok_def)
  have v: "\<And>x. x \<in> set path \<Longrightarrow>
             0 \<le> fst x \<and> fst x < height self \<and> 0 \<le> fst (snd x) \<and> fst (snd x) < width self"
    using can_place_valid_cells[OF acc] by (rule valid_cell_bounds)
  have len: "0 + length path \<le> length (wd_word wd)"
    using can_place_word_at_path_true(1)[OF acc] by simp
  from place_loop_total[OF r v len, of "[]" 0 0] obtain g' segs' where
    pl: "place_loop wd 0 path (grid self) [] 0 0 = Inr (g', segs')" and
    r': "rect g' (height self) (width self)" and sg: "map fst segs' = path"
    by auto
  from ne obtain p0 rest where p: "path = p0 # rest" by (cases path) auto
  let ?pw = "\<lparr>pw_word_data = wd, pw_segments = segs', pw_start_position = p0,
               pw_total_length = length (wd_word wd)\<rparr>"
  have res: "place_word_at_path self wd path = Inr (?pw, self\<lparr>grid := g'\<rparr>)"
    using pl p by (simp add: place_word_at_path_def)
  have "cells_in A g'" if "cells_in A (grid self)" "set (wd_word wd) \<subseteq> A" for A
    using pl r v that by (rule place_loop_cells_in)
  with res r' sg show ?thesis by (simp add: grid_ok_def)
qed

lemma py_randint_defined:
  "a \<le> b \<Longrightarrow> \<exists>n rs1. py_randint a b rs = Inr (n, rs1) \<and> a \<le> n \<and> n \<le> b"
proof -
  assume ab: "a \<le> b"
  then have pos: "0 < nat (b - a + 1)" by simp
  have "rng_head rs mod nat (b - a + 1) < nat (b - a + 1)"
    using pos by (rule mod_less_divisor)
  then have "int (rng_head rs mod nat (b - a + 1)) < b - a + 1"
    using ab by linarith
  with ab show ?thesis by (simp add: py_randint_def)
qed

lemma valid_cell_cong:
  "width a = width b \<Longrightarrow> height a = height b \<Longrightarrow> valid_cell a x = valid_cell b x"
  by (simp add: valid_cell_def is_valid_position_def)

lemma syllable_positions_dims:
  "width a = width b \<Longrightarrow> height a = height b \<Longrightarrow>
   syllable_positions a chars d r c = syllable_positions b chars d r c"
  by (induction chars arbitrary: r c) (simp_all add: is_valid_position_def)

lemma syllable_path_loop_dims:
  "width a = width b \<Longrightarrow> height a = height b \<Longrightarrow>
   syllable_path_loop a syls i path r c rs = syllable_path_loop b syls i path r c rs"
proof (induction syls arbitrary: i path r c rs)
  case Nil
  then show ?case by simp
next
  case (Cons s syls)
  have sp: "syllable_positions a (syl_text s) d r c = syllable_positions b (syl_text s) d r c" for d
    using Cons.prems by (rule syllable_positions_dims)
  have rec: "syllable_path_loop a syls (Suc i) (path @ ps) r1 c1 rs1
               = syllable_path_loop b syls (Suc i) (path @ ps) r1 c1 rs1" for ps r1 c1 rs1
    using Cons.prems by (rule Cons.IH)
  show ?case by (simp add: sp rec split: sum.splits option.splits prod.splits)
qed

lemma generated_path_dims:
  "width a = width b \<Longrightarrow> height a = height b \<Longrightarrow>
   generated_path a wd path = generated_path b wd path"
proof -
  assume d: "width a = width b" "height a = height b"
  have "generate_syllable_path a wd r c rs = generate_syllable_path b wd r c rs" for r c rs
    unfolding generate_syllable_path_def using d by (rule syllable_path_loop_dims)
  then show ?thesis by (simp add: generated_path_def)
qed

lemma generate_syllable_path_total:
  "\<exists>res rs'. generate_syllable_path self wd r c rs = Inr (res, rs')"
  unfolding generate_syllable_path_def by (rule syllable_path_loop_total)

text \<open>
  The attempts for one word: on a generator with a positive width and height they raise
  nothing and keep the invariant and the dimensions.
\<close>

lemma place_attempts_inv:
  assumes w: "0 < width self" and h: "0 < height self"
    and inv: "engine_inv A W self" and sub: "set (wd_word wd) \<subseteq> A" and mem: "wd \<in> W"
  shows "\<exists>b self' rs'. place_attempts n self wd rs = Inr (b, self', rs')
           \<and> engine_inv A W self' \<and> width self' = width self \<and> height self' = height self"
proof (induction n arbitrary: rs)
  case 0
  from inv show ?case by auto
next
  case (Suc n)
  from h py_randint_defined[of 0 "height self - 1" rs] obtain start_row rs1 where
    r1: "py_randint 0 (height self - 1) rs = Inr (start_row, rs1)" by auto
  from w py_randint_defined[of 0 "width self - 1" rs1] obtain start_col rs2 where
    r2: "py_randint 0 (width self - 1) rs1 = Inr (start_col, rs2)" by auto
  from generate_syllable_path_total obtain res rs3 where
    gp: "generate_syllable_path self wd start_row start_col rs2 = Inr (res, rs3)" by blast
  from Suc[of rs3] obtain b0 self0 rs0 where
    again: "place_attempts n self wd rs3 = Inr (b0, self0, rs0)"
      "engine_inv A W self0" "width self0 = width self" "height self0 = height self"
    by blast
  show ?case
  proof (cases res)
    case None
    with r1 r2 gp again show ?thesis by simp
  next
    case (Some path)
    show ?thesis
    proof (cases "path = []")
      case True
      with Some r1 r2 gp again show ?thesis by simp
    next
      case ne: False
      from inv have ok: "grid_ok self" by (simp add: engine_inv_def)
      from can_place_word_at_path_total[OF ok] obtain b where
        cp: "can_place_word_at_path self (wd_word wd) path = Inr b" by blast
      show ?thesis
      proof (cases b)
        case False
        with cp ne Some r1 r2 gp again show ?thesis by simp
      next
        case True
        with cp have acc: "can_place_word_at_path self (wd_word wd) path = Inr True" by simp
        from place_word_at_path_accepted[OF ok ne acc] obtain pw self1 where
          pl: "place_word_at_path self wd path = Inr (pw, self1)" and
          ok1: "grid_ok self1" and d1: "width self1 = width self" "height self1 = height self" and
          pws: "placed_words self1 = placed_words self" and
          segs: "map fst (pw_segments pw) = path" and wdp: "pw_word_data pw = wd" and
          ci: "\<And>A. cells_in A (grid self) \<Longrightarrow> set (wd_word wd) \<subseteq> A \<Longrightarrow> cells_in A (grid self1)"
          by blast
        let ?self' = "self1\<lparr>placed_words := placed_words self1 @ [pw]\<rparr>"
        have res: "place_attempts (Suc n) self wd rs = Inr (True, ?self', rs3)"
          using r1 r2 gp Some ne acc pl by simp
        have c1: "cells_in A (grid self1)" using inv sub ci by (simp add: engine_inv_def)
        have dims: "width ?self' = width self" "height ?self' = height self"
          using d1 by simp_all
        have old: "generated_path ?self' (pw_word_data q) (map fst (pw_segments q))"
          if "q \<in> set (placed_words self)" for q
        proof -
          from inv that have "generated_path self (pw_word_data q) (map fst (pw_segments q))"
            by (simp add: engine_inv_def)
          then show ?thesis using generated_path_dims[OF dims] by simp
        qed
        have oldw: "pw_word_data q \<in> W" if "q \<in> set (placed_words self)" for q
          using inv that by (simp add: engine_inv_def)
        have "generated_path self wd path"
          using gp Some unfolding generated_path_def by blast
        then have new: "generated_path ?self' (pw_word_data pw) (map fst (pw_segments pw))"
          using generated_path_dims[OF dims] segs wdp by simp
        have "engine_inv A W ?self'"
          using ok1 c1 old oldw new pws wdp mem by (auto simp: engine_inv_def grid_ok_def)
        moreover have "width ?self' = width self" "height ?self' = height self"
          using d1 by simp_all
        ultimately have "place_attempts (Suc n) self wd rs = Inr (True, ?self', rs3)
            \<and> engine_inv A W ?self' \<and> width ?self' = width self \<and> height ?self' = height self"
          using res by blast
        then show ?thesis by blast
      qed
    qed
  qed
qed

lemma place_words_inv:
  assumes "0 < width self" and "0 < height self" and "engine_inv A W self"
    and "\<And>wd. wd \<in> set wds \<Longrightarrow> set (wd_word wd) \<subseteq> A \<and> wd \<in> W"
  shows "\<exists>self' rs'. place_words self wds rs = Inr (self', rs')
           \<and> engine_inv A W self' \<and> width self' = width self \<and> height self' = height self"
  using assms
proof (induction wds arbitrary: self rs)
  case Nil
  then show ?case by simp
next
  case (Cons wd wds)
  from Cons.prems(4)[of wd] have sub: "set (wd_word wd) \<subseteq> A" and mem: "wd \<in> W" by simp_all
  from place_attempts_inv[OF Cons.prems(1,2,3) sub mem, of max_attempts rs] obtain b self1 rs1 where
    p: "place_word_in_grid self wd rs = Inr (b, self1, rs1)" and
    i1: "engine_inv A W self1" and d1: "width self1 = width self" "height self1 = height self"
    by (auto simp: place_word_in_grid_def)
  from Cons.prems(1,2) d1 have pos: "0 < width self1" "0 < height self1" by simp_all
  have rest: "\<And>wd. wd \<in> set wds \<Longrightarrow> set (wd_word wd) \<subseteq> A \<and> wd \<in> W"
    using Cons.prems(4) by simp
  from Cons.IH[OF pos i1 rest, of rs1] p d1 show ?case by auto
qed

section \<open>Filling the grid of GridGenerator\<close>

lemma pick_letter_defined: "letters \<noteq> [] \<Longrightarrow> \<exists>l rs1. pick_letter letters rs = Inr (l, rs1)"
  by (simp add: pick_letter_def py_choice_def)

lemma pick_letter_result:
  "pick_letter letters rs = Inr (l, rs1) \<Longrightarrow> (\<exists>ch \<in> set letters. l = [ch]) \<and> l \<noteq> []"
  by (auto simp: pick_letter_def py_choice_def split: if_splits)

lemma rect_cell:
  assumes "rect g h w" and "row \<in> set g" and "cell \<in> set row"
  obtains i j where "i < length g" "j < length (g ! i)" "cell = g ! i ! j"
    "0 \<le> int i" "int i < h" "0 \<le> int j" "int j < w"
proof -
  from assms(2) obtain i where i: "i < length g" "row = g ! i" by (auto simp: in_set_conv_nth)
  from assms(3) i obtain j where j: "j < length (g ! i)" "cell = g ! i ! j"
    by (auto simp: in_set_conv_nth)
  from assms(1) i have "length (g ! i) = nat w" by (simp add: rect_nth)
  with j have "int j < w" by simp
  moreover from assms(1) i have "int i < h" by (simp add: rect_def)
  ultimately show ?thesis using that i j by simp
qed

text \<open>
  The loop over all cells of a grid of shape \<open>h\<close> by \<open>w\<close>, with the empty string as
  marker: it raises nothing and keeps the shape, and afterwards every cell holds one
  character, of \<open>A\<close> where it held one before and of \<open>B\<close> where \<open>pick\<close> supplied it.
\<close>

lemma fill_cells_range_full:
  assumes r: "rect g h w" and ci: "cells_in A g"
    and tot: "\<And>rs. \<exists>l rs1. pick rs = Inr (l, rs1)"
    and good: "\<And>rs l rs1. pick rs = Inr (l, rs1) \<Longrightarrow> (\<exists>ch \<in> B. l = [ch]) \<and> l \<noteq> []"
  shows "\<exists>g' rs'. fill_cells [] pick g (range_cells h w) rs = Inr (g', rs')
           \<and> rect g' h w \<and> cells_full (A \<union> B) g'"
proof -
  let ?cells = "range_cells h w"
  have "\<exists>g' rs'. fill_cells [] pick g ?cells rs = Inr (g', rs')"
  proof (rule fill_cells_total)
    show "rect g h w" by (rule r)
    show "\<exists>l rs1. pick rs = Inr (l, rs1)" for rs by (rule tot)
    show "0 \<le> row \<and> row < h \<and> 0 \<le> col \<and> col < w"
      if "(row, col) \<in> set ?cells" for row col using that by (simp add: range_cells_iff)
  qed
  then obtain g' rs' where
    f: "fill_cells [] pick g ?cells rs = Inr (g', rs')" by blast
  from fill_cells_frame[OF f] have sh: "map length g' = map length g" by blast
  with r have r': "rect g' h w" by (simp add: rect_shape)
  have ne: "\<And>rs l rs1. pick rs = Inr (l, rs1) \<Longrightarrow> l \<noteq> []"
    using good by blast
  have "\<exists>ch \<in> A \<union> B. cell = [ch]"
    if "row \<in> set g'" "cell \<in> set row" for row cell
  proof -
    from r' that obtain i j where
      ij: "i < length g'" "j < length (g' ! i)" "cell = g' ! i ! j"
        "0 \<le> int i" "int i < h" "0 \<le> int j" "int j < w"
      by (rule rect_cell)
    from ij have "(int i, int j) \<in> set ?cells" by (simp add: range_cells_iff)
    with f ne have "\<exists>v. grid_get g' (int i) (int j) = Inr v \<and> v \<noteq> []"
      by (rule fill_cells_visited)
    then obtain v where v: "grid_get g' (int i) (int j) = Inr v" "v \<noteq> []" by blast
    from grid_get_valid[OF r' ij(4,5,6,7)] v have cne: "g' ! i ! j \<noteq> []" by simp
    from ij(1) have i0: "i < length g" using shape_length[OF sh] by simp
    from shape_nth[OF sh i0] ij(2) have j0: "j < length (g ! i)" by simp
    from f good i0 j0
    have "g' ! i ! j = g ! i ! j \<or> (g ! i ! j = [] \<and> (\<exists>ch \<in> B. g' ! i ! j = [ch]))"
      by (rule fill_cells_content)
    then have "g' ! i ! j = g ! i ! j \<or> (\<exists>ch \<in> B. g' ! i ! j = [ch])"
      by blast
    then show ?thesis
    proof
      assume same: "g' ! i ! j = g ! i ! j"
      from i0 j0 have "g ! i \<in> set g" "g ! i ! j \<in> set (g ! i)"
        by simp_all
      with ci have "g ! i ! j = [] \<or> (\<exists>ch \<in> A. g ! i ! j = [ch])"
        by (simp add: cells_in_def)
      with same cne ij(3) show ?thesis by auto
    next
      assume "\<exists>ch \<in> B. g' ! i ! j = [ch]"
      with ij(3) show ?thesis by auto
    qed
  qed
  then have "cells_full (A \<union> B) g'" by (simp add: cells_full_def)
  with f r' show ?thesis by blast
qed

text \<open>
  On a grid of the announced shape the filler of \<open>GridGenerator\<close> raises nothing,
  touches only the grid and leaves no cell empty.
\<close>

lemma fill_empty_spaces_ok:
  assumes ok: "grid_ok self" and ci: "cells_in A (grid self)"
  shows "\<exists>self' rs'. fill_empty_spaces self rs = Inr (self', rs')
           \<and> grid_ok self' \<and> width self' = width self \<and> height self' = height self
           \<and> placed_words self' = placed_words self
           \<and> cells_full (A \<union> lowercase_letters) (grid self')"
proof -
  let ?pick = "pick_letter ''abcdefghijklmnopqrstuvwxyz''"
  have "\<exists>g' rs'. fill_cells [] ?pick (grid self) (range_cells (height self) (width self)) rs
                   = Inr (g', rs')
          \<and> rect g' (height self) (width self) \<and> cells_full (A \<union> lowercase_letters) g'"
  proof (rule fill_cells_range_full)
    show "rect (grid self) (height self) (width self)" using ok by (simp add: grid_ok_def)
    show "cells_in A (grid self)" by (rule ci)
    show "\<exists>l rs1. ?pick rs = Inr (l, rs1)" for rs by (rule pick_letter_defined) simp
    show "(\<exists>ch \<in> lowercase_letters. l = [ch]) \<and> l \<noteq> []"
      if "?pick rs = Inr (l, rs1)" for rs l rs1
      using that unfolding lowercase_letters_def by (rule pick_letter_result)
  qed
  then show ?thesis by (auto simp: fill_empty_spaces_def grid_ok_def)
qed

section \<open>The filler changes no filled cell\<close>

text \<open>
  C9. The grid filler of \<open>GridGenerator\<close> returns for every well-formed generator and
  every sequence of draws, and a cell that held a letter before the fill holds the same
  letter after it: only cells that held the empty marker are written. The shape of the
  grid does not change either.
\<close>

theorem fill_empty_spaces_keeps_letters:
  assumes "grid_ok self"
  shows "\<exists>self' rs'. fill_empty_spaces self rs = Inr (self', rs')
           \<and> map length (grid self') = map length (grid self)
           \<and> (\<forall>i j. i < length (grid self) \<longrightarrow> j < length (grid self ! i) \<longrightarrow>
                  grid self ! i ! j \<noteq> [] \<longrightarrow> grid self' ! i ! j = grid self ! i ! j)"
proof -
  let ?pick = "pick_letter ''abcdefghijklmnopqrstuvwxyz''"
  let ?cells = "range_cells (height self) (width self)"
  have "\<exists>g' rs'. fill_cells [] ?pick (grid self) ?cells rs = Inr (g', rs')"
  proof (rule fill_cells_total)
    show "rect (grid self) (height self) (width self)" using assms by (simp add: grid_ok_def)
    show "\<exists>l rs1. ?pick rs = Inr (l, rs1)" for rs by (rule pick_letter_defined) simp
    show "0 \<le> row \<and> row < height self \<and> 0 \<le> col \<and> col < width self"
      if "(row, col) \<in> set ?cells" for row col using that by (simp add: range_cells_iff)
  qed
  then obtain g' rs' where f: "fill_cells [] ?pick (grid self) ?cells rs = Inr (g', rs')"
    by blast
  from fill_cells_frame[OF f] f show ?thesis by (simp add: fill_empty_spaces_def)
qed

theorem fill_empty_spaces_keeps_letters_witness:
  "grid_ok \<lparr>width = 2, height = 2, grid = [[''x'', ''''], ['''', ''y'']], placed_words = []\<rparr>
   \<and> (\<exists>self' rs'.
         fill_empty_spaces
           \<lparr>width = 2, height = 2, grid = [[''x'', ''''], ['''', ''y'']], placed_words = []\<rparr>
           (draws []) = Inr (self', rs')
         \<and> grid self' ! 0 ! 0 = ''x'' \<and> grid self' ! 1 ! 1 = ''y'')"
proof -
  let ?S = "\<lparr>width = 2, height = 2, grid = [[''x'', ''''], ['''', ''y'']], placed_words = []\<rparr>"
  have ok: "grid_ok ?S" by (simp add: grid_ok_def rect_def)
  from fill_empty_spaces_keeps_letters[OF ok, of "draws []"] obtain self' rs' where
    f: "fill_empty_spaces ?S (draws []) = Inr (self', rs')" and
    fr: "\<And>i j. i < length (grid ?S) \<Longrightarrow> j < length (grid ?S ! i) \<Longrightarrow>
           grid ?S ! i ! j \<noteq> [] \<Longrightarrow> grid self' ! i ! j = grid ?S ! i ! j"
    by blast
  from fr[of 0 0] fr[of 1 1] have "grid self' ! 0 ! 0 = ''x''" "grid self' ! 1 ! 1 = ''y''"
    by simp_all
  with ok f show ?thesis by blast
qed

text \<open>The fillers of the other engines keep the filled cells in the same way.\<close>

lemma kdp_fill_empty_spaces_keeps_letters:
  assumes "kdp_fill_empty_spaces g rs = Inr (g', rs')"
    and "i < length g" and "j < length (g ! i)" and "g ! i ! j \<noteq> ''.''"
  shows "g' ! i ! j = g ! i ! j"
  using fill_cells_frame[OF assms(1)[unfolded kdp_fill_empty_spaces_def]] assms(2,3,4) by blast

lemma fill_empty_cells_keeps_letters:
  assumes "fill_empty_cells self rs = Inr (self', rs')"
    and "i < length (canvas_grid self)" and "j < length (canvas_grid self ! i)"
    and "canvas_grid self ! i ! j \<noteq> []"
  shows "canvas_grid self' ! i ! j = canvas_grid self ! i ! j"
proof -
  from assms(1) obtain g' where
    f: "fill_cells [] pick_weighted (canvas_grid self) (range_cells (rows self) (cols self)) rs
          = Inr (g', rs')" and g': "canvas_grid self' = g'"
    by (auto simp: fill_empty_cells_def split: sum.splits)
  from fill_cells_frame[OF f] assms(2,3,4) g' show ?thesis by simp
qed

section \<open>A whole run of generate\_puzzle\<close>

lemma empty_grid_rect: "rect (empty_grid w h) h w"
  by (simp add: rect_def empty_grid_def py_range_def)

lemma empty_grid_cells_in: "cells_in A (empty_grid w h)"
  by (auto simp: cells_in_def empty_grid_def)

lemma wd_word_create_word_data [simp]:
  "wd_word (create_word_data w d) = py_strip (py_lower w)"
  by (simp add: create_word_data_def Let_def)

text \<open>
  For a generator with a positive width and height, \<open>generate_puzzle\<close> raises nothing,
  whatever the words and the draws. The grid it returns has the announced shape and no
  empty cell, and every placed word records a path the path generator returned for it.
\<close>

lemma generate_puzzle_run:
  assumes w: "0 < width self" and h: "0 < height self"
    and sub: "\<And>w. w \<in> set word_list \<Longrightarrow> set (py_strip (py_lower w)) \<subseteq> A"
  shows "\<exists>p self' rs'. generate_puzzle self word_list d rs = Inr (p, self', rs')
           \<and> pd_grid p = grid self'
           \<and> pd_placed_words p = map serialize_placed_word (placed_words self')
           \<and> width self' = width self \<and> height self' = height self
           \<and> grid_ok self'
           \<and> cells_full (A \<union> lowercase_letters) (grid self')
           \<and> (\<forall>pw \<in> set (placed_words self').
                 pw_word_data pw \<in> set (map (\<lambda>w. create_word_data w d) word_list) \<and>
                 generated_path self (pw_word_data pw) (map fst (pw_segments pw)))"
proof -
  let ?W = "set (map (\<lambda>w. create_word_data w d) word_list)"
  let ?wds = "sort_key (\<lambda>w. - int (length (wd_word w))) (map (\<lambda>w. create_word_data w d) word_list)"
  let ?self0 = "self\<lparr>grid := empty_grid (width self) (height self), placed_words := []\<rparr>"
  have pos: "0 < width ?self0" "0 < height ?self0" using w h by simp_all
  have inv0: "engine_inv A ?W ?self0"
    by (simp add: engine_inv_def grid_ok_def empty_grid_rect empty_grid_cells_in)
  have words: "set (wd_word wd) \<subseteq> A \<and> wd \<in> ?W" if "wd \<in> set ?wds" for wd
  proof -
    from that obtain w where "w \<in> set word_list" "wd = create_word_data w d" by auto
    with sub show ?thesis by simp
  qed
  from place_words_inv[OF pos inv0 words, of ?wds rs] obtain self1 rs1 where
    p1: "place_words ?self0 ?wds rs = Inr (self1, rs1)" and
    i1: "engine_inv A ?W self1" and d1: "width self1 = width self" "height self1 = height self"
    by auto
  from i1 have ok1: "grid_ok self1" and c1: "cells_in A (grid self1)"
    and g1: "\<And>pw. pw \<in> set (placed_words self1) \<Longrightarrow>
               generated_path self1 (pw_word_data pw) (map fst (pw_segments pw))"
    and w1: "\<And>pw. pw \<in> set (placed_words self1) \<Longrightarrow> pw_word_data pw \<in> ?W"
    by (simp_all add: engine_inv_def)
  from fill_empty_spaces_ok[OF ok1 c1, of rs1] obtain self2 rs2 where
    f: "fill_empty_spaces self1 rs1 = Inr (self2, rs2)" and
    ok2: "grid_ok self2" and d2: "width self2 = width self1" "height self2 = height self1" and
    pw2: "placed_words self2 = placed_words self1" and
    full: "cells_full (A \<union> lowercase_letters) (grid self2)"
    by blast
  have gen: "generated_path self (pw_word_data pw) (map fst (pw_segments pw))"
    if "pw \<in> set (placed_words self2)" for pw
    using g1[of pw] that pw2 generated_path_dims[OF d1] by simp
  let ?p = "\<lparr>pd_grid = grid self2, pd_words = map pw_word_data (placed_words self2),
              pd_placed_words = map serialize_placed_word (placed_words self2),
              pd_difficulty = d, pd_dimensions = (width self2, height self2)\<rparr>"
  have "generate_puzzle self word_list d rs = Inr (?p, self2, rs2)"
    using p1 f by (simp add: generate_puzzle_def Let_def)
  moreover have "pw_word_data pw \<in> ?W" if "pw \<in> set (placed_words self2)" for pw
    using w1[of pw] that pw2 by simp
  ultimately show ?thesis using ok2 d1 d2 full gen by auto
qed

text \<open>
  The filler of \<open>ExpandedWordCanvas\<close> draws uppercase letters: on a canvas of the
  announced shape whose filled cells hold uppercase letters it leaves no cell empty and an
  uppercase letter in every cell.
\<close>

lemma pick_weighted_defined: "\<exists>l rs1. pick_weighted rs = Inr (l, rs1)"
proof (cases "rng_head rs mod 10 < 4")
  case True
  with pick_letter_defined[of "''AEIOU''" "rng_tail rs"] show ?thesis
    by (simp add: pick_weighted_def)
next
  case False
  with pick_letter_defined[of "''BCDFGHJKLMNPQRSTVWXYZ''" "rng_tail rs"] show ?thesis
    by (simp add: pick_weighted_def)
qed

lemma pick_weighted_result:
  assumes "pick_weighted rs = Inr (l, rs1)"
  shows "(\<exists>ch \<in> uppercase_letters. l = [ch]) \<and> l \<noteq> []"
proof (cases "rng_head rs mod 10 < 4")
  case True
  with assms have "pick_letter ''AEIOU'' (rng_tail rs) = Inr (l, rs1)"
    by (simp add: pick_weighted_def)
  from pick_letter_result[OF this] show ?thesis by (auto simp: uppercase_letters_def)
next
  case False
  with assms have "pick_letter ''BCDFGHJKLMNPQRSTVWXYZ'' (rng_tail rs) = Inr (l, rs1)"
    by (simp add: pick_weighted_def)
  from pick_letter_result[OF this] show ?thesis by (auto simp: uppercase_letters_def)
qed

lemma fill_empty_cells_full:
  assumes "rect (canvas_grid self) (rows self) (cols self)"
    and "cells_in uppercase_letters (canvas_grid self)"
  shows "\<exists>self' rs'. fill_empty_cells self rs = Inr (self', rs')
           \<and> rect (canvas_grid self') (rows self) (cols self)
           \<and> cells_full uppercase_letters (canvas_grid self')"
proof -
  have "\<exists>g' rs'. fill_cells [] pick_weighted (canvas_grid self) (range_cells (rows self) (cols self)) rs
                   = Inr (g', rs')
          \<and> rect g' (rows self) (cols self)
          \<and> cells_full (uppercase_letters \<union> uppercase_letters) g'"
    using assms pick_weighted_defined pick_weighted_result by (rule fill_cells_range_full)
  then show ?thesis by (auto simp: fill_empty_cells_def)
qed

lemma cells_full_filled: "cells_full A g \<Longrightarrow> filled_cells g = total_cells g"
proof -
  assume "cells_full A g"
  then have "\<forall>cell \<in> set (concat g). cell \<noteq> []" by (auto simp: cells_full_def)
  then have "filter (\<lambda>cell. cell \<noteq> []) (concat g) = concat g" by (simp only: filter_True)
  then show ?thesis by (simp add: filled_cells_def total_cells_def)
qed

lemma rect_total_cells: "rect g h w \<Longrightarrow> total_cells g = nat h * nat w"
  by (simp add: rect_shape total_cells_def length_concat sum_list_replicate)

lemma syllable_positions_cells:
  "syllable_positions self chars d r c = Some (ps, r', c') \<Longrightarrow> k < length chars \<Longrightarrow>
   is_valid_position self (r + int k * fst (direction_value d)) (c + int k * snd (direction_value d))"
proof (induction chars arbitrary: r c ps k)
  case Nil
  then show ?case by simp
next
  case (Cons ch chars)
  from Cons.prems(1) obtain ps1 where
    v: "is_valid_position self r c" and
    rec: "syllable_positions self chars d (r + fst (direction_value d)) (c + snd (direction_value d))
            = Some (ps1, r', c')"
    by (auto split: if_splits option.splits)
  show ?case
  proof (cases k)
    case 0
    with v show ?thesis by simp
  next
    case (Suc k')
    with Cons.prems(2) have "k' < length chars" by simp
    from Cons.IH[OF rec this] Suc show ?thesis by (simp add: algebra_simps)
  qed
qed

text \<open>A syllable that was laid out is no longer than the longer side of the grid.\<close>

lemma syllable_positions_fits:
  assumes "syllable_positions self chars d r c = Some (ps, r', c')" and "0 < height self"
  shows "int (length chars) \<le> max (height self) (width self)"
proof (cases chars)
  case Nil
  with assms(2) show ?thesis by simp
next
  case (Cons ch rest)
  then have "0 < length chars" "length chars - 1 < length chars" by simp_all
  from syllable_positions_cells[OF assms(1) this(1)] syllable_positions_cells[OF assms(1) this(2)]
  have first: "is_valid_position self r c" and
    last: "is_valid_position self (r + int (length chars - 1) * fst (direction_value d))
             (c + int (length chars - 1) * snd (direction_value d))"
    by simp_all
  from Cons have n: "int (length chars - 1) = int (length chars) - 1" by simp
  from first last show ?thesis unfolding n is_valid_position_def
    by (cases d) (simp_all, linarith+)
qed

lemma syllable_path_loop_fits:
  "syllable_path_loop self syls i path r c rs = Inr (Some p, rs') \<Longrightarrow> 0 < height self \<Longrightarrow>
   s \<in> set syls \<Longrightarrow> int (length (syl_text s)) \<le> max (height self) (width self)"
proof (induction syls arbitrary: i path r c rs)
  case Nil
  then show ?case by simp
next
  case (Cons s0 syls)
  from Cons.prems(1) obtain d rs1 ps r1 c1 where
    sp: "syllable_positions self (syl_text s0) d r c = Some (ps, r1, c1)" and
    rec: "syllable_path_loop self syls (i + 1) (path @ ps) r1 c1 rs1 = Inr (Some p, rs')"
    by (auto split: sum.splits option.splits prod.splits)
  show ?case
  proof (cases "s = s0")
    case True
    with syllable_positions_fits[OF sp Cons.prems(2)] show ?thesis by simp
  next
    case False
    with Cons.prems(3) have "s \<in> set syls" by simp
    with rec Cons.prems(2) show ?thesis by (rule Cons.IH)
  qed
qed

lemma generated_path_fits:
  assumes "generated_path self wd path" and "0 < height self" and "s \<in> set (wd_syllables wd)"
  shows "int (length (syl_text s)) \<le> max (height self) (width self)"
proof -
  from assms(1) obtain r c rs rs1 where
    "syllable_path_loop self (wd_syllables wd) 0 [] r c rs = Inr (Some path, rs1)"
    by (auto simp: generated_path_def generate_syllable_path_def)
  then show ?thesis using assms(2,3) by (rule syllable_path_loop_fits)
qed

lemma generated_path_valid:
  assumes "generated_path self wd path" and "x \<in> set path"
  shows "valid_cell self x"
proof -
  from assms(1) obtain r c rs rs1 where
    "generate_syllable_path self wd r c rs = Inr (Some path, rs1)"
    by (auto simp: generated_path_def)
  then show ?thesis using assms(2) by (rule generate_syllable_path_valid)
qed

section \<open>What generate\_puzzle returns\<close>

text \<open>
  A word with a syllable longer than both sides of the grid finds no path: every iteration
  of the loop of \<open>_place_word_in_grid\<close> draws a start and directions and fails, so the
  loop runs its hundred iterations, leaves the generator as it was and answers \<open>False\<close>.
\<close>

lemma generate_syllable_path_none:
  assumes "0 < height self" and "s \<in> set (wd_syllables wd)"
    and "max (height self) (width self) < int (length (syl_text s))"
  shows "\<exists>rs'. generate_syllable_path self wd r c rs = Inr (None, rs')"
proof -
  from generate_syllable_path_total obtain res rs' where
    run: "generate_syllable_path self wd r c rs = Inr (res, rs')" by blast
  have "res = None"
  proof (cases res)
    case None
    then show ?thesis .
  next
    case (Some p)
    with run have "syllable_path_loop self (wd_syllables wd) 0 [] r c rs = Inr (Some p, rs')"
      by (simp add: generate_syllable_path_def)
    from syllable_path_loop_fits[OF this assms(1,2)] assms(3) show ?thesis by simp
  qed
  with run show ?thesis by blast
qed

lemma place_attempts_exhausted:
  assumes "0 < width self" and "0 < height self" and "s \<in> set (wd_syllables wd)"
    and "max (height self) (width self) < int (length (syl_text s))"
  shows "place_attempts n self wd rs = Inr (False, self, (after_attempt self wd ^^ n) rs)"
proof (induction n arbitrary: rs)
  case 0
  show ?case by simp
next
  case (Suc n)
  from assms(2) have "0 \<le> height self - 1" by simp
  from py_randint_defined[OF this] obtain row rs1 where
    r: "py_randint 0 (height self - 1) rs = Inr (row, rs1)" by blast
  from assms(1) have "0 \<le> width self - 1" by simp
  from py_randint_defined[OF this] obtain col rs2 where
    c: "py_randint 0 (width self - 1) rs1 = Inr (col, rs2)" by blast
  from generate_syllable_path_none[OF assms(2,3,4)] obtain rs3 where
    p: "generate_syllable_path self wd row col rs2 = Inr (None, rs3)" by blast
  from r c p have a: "after_attempt self wd rs = rs3" by (simp add: after_attempt_def)
  from r c p have "place_attempts (Suc n) self wd rs = place_attempts n self wd rs3" by simp
  also have "\<dots> = Inr (False, self, (after_attempt self wd ^^ n) rs3)" by (rule Suc.IH)
  also have "(after_attempt self wd ^^ n) rs3 = (after_attempt self wd ^^ Suc n) rs"
    unfolding a[symmetric] by (simp add: funpow_swap1)
  finally show ?case .
qed

lemma place_word_in_grid_exhausted:
  assumes "0 < width self" and "0 < height self" and "s \<in> set (wd_syllables wd)"
    and "max (height self) (width self) < int (length (syl_text s))"
  shows "place_word_in_grid self wd rs = Inr (False, self, (after_attempt self wd ^^ 100) rs)"
  unfolding place_word_in_grid_def max_attempts_def using assms by (rule place_attempts_exhausted)

text \<open>
  C3, as the code has it. \<open>generate_puzzle\<close> validates nothing. For a generator with a
  positive width and height it returns for every word list and every sequence of draws: it
  never raises. The grid it returns has \<open>height\<close> rows of \<open>width\<close> cells and no empty
  cell. Every placed word is one of the requested words, and none of its syllables is longer
  than the longer side of the grid. A word with a syllable longer than that is not
  rejected beforehand: on a generator of these dimensions \<open>_place_word_in_grid\<close> makes
  all of its 100 attempts for it, each one drawing a start and directions, changes nothing
  and answers \<open>False\<close>, so the word is left out.
\<close>

theorem generate_puzzle_never_rejects:
  assumes "0 < width self" and "0 < height self"
  shows "(\<exists>p self' rs'. generate_puzzle self word_list difficulty rs = Inr (p, self', rs')
           \<and> rect (pd_grid p) (height self) (width self)
           \<and> (\<forall>row \<in> set (pd_grid p). \<forall>cell \<in> set row. cell \<noteq> [])
           \<and> (\<forall>pw \<in> set (placed_words self').
                 pw_word_data pw \<in> set (map (\<lambda>w. create_word_data w difficulty) word_list)
                 \<and> (\<forall>s \<in> set (wd_syllables (pw_word_data pw)).
                       int (length (syl_text s)) \<le> max (height self) (width self))))
         \<and> (\<forall>(self1::GridGenerator) wd rs1.
               width self1 = width self \<and> height self1 = height self
               \<and> (\<exists>s \<in> set (wd_syllables wd).
                     max (height self) (width self) < int (length (syl_text s)))
               \<longrightarrow> place_word_in_grid self1 wd rs1
                     = Inr (False, self1, (after_attempt self1 wd ^^ 100) rs1))"
proof (rule conjI)
  have "set (py_strip (py_lower w)) \<subseteq> UNIV" for w by simp
  from generate_puzzle_run[OF assms this, of word_list difficulty rs] obtain p self' rs' where
    run: "generate_puzzle self word_list difficulty rs = Inr (p, self', rs')"
      "pd_grid p = grid self'" "cells_full (UNIV \<union> lowercase_letters) (grid self')"
      "\<And>pw. pw \<in> set (placed_words self') \<Longrightarrow>
         pw_word_data pw \<in> set (map (\<lambda>w. create_word_data w difficulty) word_list)"
      "\<And>pw. pw \<in> set (placed_words self') \<Longrightarrow>
         generated_path self (pw_word_data pw) (map fst (pw_segments pw))"
      and dims: "width self' = width self" "height self' = height self" and ok: "grid_ok self'"
    by blast
  from ok dims run(2) have shape: "rect (pd_grid p) (height self) (width self)"
    by (simp add: grid_ok_def)
  from run(2,3) have "\<forall>row \<in> set (pd_grid p). \<forall>cell \<in> set row. cell \<noteq> []"
    by (auto simp: cells_full_def)
  moreover have "int (length (syl_text s)) \<le> max (height self) (width self)"
    if "pw \<in> set (placed_words self')" "s \<in> set (wd_syllables (pw_word_data pw))" for pw s
    using run(5)[OF that(1)] assms(2) that(2) by (rule generated_path_fits)
  ultimately show "\<exists>p self' rs'. generate_puzzle self word_list difficulty rs = Inr (p, self', rs')
           \<and> rect (pd_grid p) (height self) (width self)
           \<and> (\<forall>row \<in> set (pd_grid p). \<forall>cell \<in> set row. cell \<noteq> [])
           \<and> (\<forall>pw \<in> set (placed_words self').
                 pw_word_data pw \<in> set (map (\<lambda>w. create_word_data w difficulty) word_list)
                 \<and> (\<forall>s \<in> set (wd_syllables (pw_word_data pw)).
                       int (length (syl_text s)) \<le> max (height self) (width self)))"
    using run(1,4) shape by blast
next
  show "\<forall>(self1::GridGenerator) wd rs1.
               width self1 = width self \<and> height self1 = height self
               \<and> (\<exists>s \<in> set (wd_syllables wd).
                     max (height self) (width self) < int (length (syl_text s)))
               \<longrightarrow> place_word_in_grid self1 wd rs1
                     = Inr (False, self1, (after_attempt self1 wd ^^ 100) rs1)"
  proof (intro allI impI)
    fix self1 :: GridGenerator and wd :: WordData and rs1 :: rng
    assume a: "width self1 = width self \<and> height self1 = height self
               \<and> (\<exists>s \<in> set (wd_syllables wd).
                     max (height self) (width self) < int (length (syl_text s)))"
    then obtain s where s: "s \<in> set (wd_syllables wd)"
      "max (height self1) (width self1) < int (length (syl_text s))" by auto
    from a assms have pos: "0 < width self1" "0 < height self1" by simp_all
    from pos s show "place_word_in_grid self1 wd rs1
                     = Inr (False, self1, (after_attempt self1 wd ^^ 100) rs1)"
      by (rule place_word_in_grid_exhausted)
  qed
qed

theorem generate_puzzle_never_rejects_witness:
  "0 < width (GridGenerator_init 3 3) \<and> 0 < height (GridGenerator_init 3 3)
   \<and> (\<exists>p self' rs'.
         generate_puzzle (GridGenerator_init 3 3) [''meditation''] INTERMEDIATE
             (draws (replicate 400 0 @ replicate 9 1))
           = Inr (p, self', rs')
         \<and> length (pd_grid p) = 3 \<and> list_all (\<lambda>row. length row = 3) (pd_grid p)
         \<and> [] \<notin> set (concat (pd_grid p))
         \<and> placed_words self' = [])
   \<and> place_word_in_grid (GridGenerator_init 3 3) (create_word_data ''meditation'' INTERMEDIATE)
         (draws (replicate 400 0 @ replicate 9 1))
       = Inr (False, GridGenerator_init 3 3,
              (after_attempt (GridGenerator_init 3 3) (create_word_data ''meditation'' INTERMEDIATE)
                 ^^ 100) (draws (replicate 400 0 @ replicate 9 1)))
   \<and> map ((after_attempt (GridGenerator_init 3 3) (create_word_data ''meditation'' INTERMEDIATE)
                 ^^ 100) (draws (replicate 400 0 @ replicate 9 1))) [0..<10]
       = [1, 1, 1, 1, 1, 1, 1, 1, 1, 0]"
proof -
  let ?G = "GridGenerator_init 3 3"
  let ?wd = "create_word_data ''meditation'' INTERMEDIATE"
  let ?rs = "draws (replicate 400 0 @ replicate 9 1)"
  have pos: "0 < width ?G" "0 < height ?G" by (simp_all add: GridGenerator_init_def)
  note th = generate_puzzle_never_rejects[OF pos, of "[''meditation'']" INTERMEDIATE ?rs]
  from th have "\<exists>p self' rs'. generate_puzzle ?G [''meditation''] INTERMEDIATE ?rs = Inr (p, self', rs')
           \<and> rect (pd_grid p) (height ?G) (width ?G)
           \<and> (\<forall>row \<in> set (pd_grid p). \<forall>cell \<in> set row. cell \<noteq> [])
           \<and> (\<forall>pw \<in> set (placed_words self').
                 pw_word_data pw \<in> set (map (\<lambda>w. create_word_data w INTERMEDIATE) [''meditation''])
                 \<and> (\<forall>s \<in> set (wd_syllables (pw_word_data pw)).
                       int (length (syl_text s)) \<le> max (height ?G) (width ?G)))"
    by (rule conjunct1)
  then obtain p self' rs' where
    run: "generate_puzzle ?G [''meditation''] INTERMEDIATE ?rs = Inr (p, self', rs')" and
    shape: "rect (pd_grid p) (height ?G) (width ?G)" and
    full: "\<forall>row \<in> set (pd_grid p). \<forall>cell \<in> set row. cell \<noteq> []" and
    fits0: "\<forall>pw \<in> set (placed_words self').
                 pw_word_data pw \<in> set (map (\<lambda>w. create_word_data w INTERMEDIATE) [''meditation''])
                 \<and> (\<forall>s \<in> set (wd_syllables (pw_word_data pw)).
                       int (length (syl_text s)) \<le> max (height ?G) (width ?G))"
    by blast
  from fits0 have fits: "\<And>pw s. pw \<in> set (placed_words self') \<Longrightarrow>
             pw_word_data pw = ?wd \<and>
             (s \<in> set (wd_syllables (pw_word_data pw)) \<longrightarrow>
                int (length (syl_text s)) \<le> max (height ?G) (width ?G))"
    by simp
  from th have used0: "\<forall>(self1::GridGenerator) wd rs1.
             width self1 = width ?G \<and> height self1 = height ?G
             \<and> (\<exists>s \<in> set (wd_syllables wd).
                   max (height ?G) (width ?G) < int (length (syl_text s)))
             \<longrightarrow> place_word_in_grid self1 wd rs1
                   = Inr (False, self1, (after_attempt self1 wd ^^ 100) rs1)"
    by (rule conjunct2)
  from shape have sh: "length (pd_grid p) = 3" "list_all (\<lambda>row. length row = 3) (pd_grid p)"
    by (simp_all add: rect_def list_all_iff GridGenerator_init_def)
  from full have a: "[] \<notin> set (concat (pd_grid p))" by auto
  have long: "\<lparr>syl_text = ''tion'', start_pos = 6, end_pos = 10, stress_level = 1\<rparr>
                \<in> set (wd_syllables ?wd)"
    by code_simp
  have none: "placed_words self' = []"
  proof (cases "placed_words self'")
    case Nil
    then show ?thesis .
  next
    case (Cons pw rest)
    then have "pw \<in> set (placed_words self')" by simp
    from fits[OF this, of "\<lparr>syl_text = ''tion'', start_pos = 6, end_pos = 10, stress_level = 1\<rparr>"] long
    have "int (length ''tion'') \<le> max (height ?G) (width ?G)" by simp
    then show ?thesis by (simp add: GridGenerator_init_def)
  qed
  have "\<exists>s \<in> set (wd_syllables ?wd). max (height ?G) (width ?G) < int (length (syl_text s))"
    using long by (rule bexI[rotated]) (simp add: GridGenerator_init_def)
  with used0[rule_format, of ?G ?wd ?rs]
  have spent: "place_word_in_grid ?G ?wd ?rs
                      = Inr (False, ?G, (after_attempt ?G ?wd ^^ 100) ?rs)"
    by simp
  have "case place_word_in_grid ?G ?wd ?rs of
          Inl e \<Rightarrow> False
        | Inr (placed, self1, rs1) \<Rightarrow> map rs1 [0..<10] = [1, 1, 1, 1, 1, 1, 1, 1, 1, 0]"
    by code_simp
  with spent
  have left: "map ((after_attempt ?G ?wd ^^ 100) ?rs) [0..<10] = [1, 1, 1, 1, 1, 1, 1, 1, 1, 0]"
    by (simp only: sum.case prod.case)
  from pos run sh a none spent left show ?thesis by blast
qed

text \<open>
  The claim of C3 fails on a three by three grid and the word \<open>meditation\<close>, whose
  syllable \<open>tion\<close> is longer than either side: no error is raised, the word is left
  out and a filled grid is returned. Each of the 100 attempts takes four draws (row,
  column, the direction of \<open>med\<close> and the direction of \<open>i\<close>, which leaves the grid), so
  with 400 draws of zero followed by draws of one the filler starts at the first one and
  writes \<open>b\<close> into all nine cells.
\<close>

theorem generate_puzzle_small_grid_returns:
  "map syl_text (detect_syllables ''meditation'') = [''med'', ''i'', ''ta'', ''tion'']
   \<and> (case generate_puzzle (GridGenerator_init 3 3) [''meditation''] INTERMEDIATE
             (draws (replicate 400 0 @ replicate 9 1)) of
        Inl e \<Rightarrow> False
      | Inr (p, self', rs') \<Rightarrow>
          pd_grid p = [[''b'', ''b'', ''b''], [''b'', ''b'', ''b''], [''b'', ''b'', ''b'']]
          \<and> pd_placed_words p = [])"
  by code_simp

text \<open>
  Where the directions can be configured, in \<open>KDPWordsearchGenerator\<close>, an empty
  direction set is not rejected either: the first \<open>random.choice\<close> of
  \<open>_generate_direction_sequence\<close> raises \<open>IndexError\<close>.
\<close>

lemma kdp_empty_direction_set_raises:
  "kdp_generate_direction_sequence (syllable # syllables) [] rs = Inl IndexError"
  by (simp add: kdp_generate_direction_sequence_def kdp_available_directions_def py_choice_def)

text \<open>The cells of one syllable are laid out one step apart, so they are pairwise distinct.\<close>

lemma syllable_positions_coords:
  "syllable_positions self chars d r c = Some (ps, r', c') \<Longrightarrow>
   path_coords ps
     = map (\<lambda>k. (r + int k * fst (direction_value d), c + int k * snd (direction_value d)))
         [0..<length chars]"
proof (induction chars arbitrary: r c ps)
  case Nil
  then show ?case by (simp add: path_coords_def)
next
  case (Cons ch chars)
  from Cons.prems obtain ps1 where
    rec: "syllable_positions self chars d (r + fst (direction_value d)) (c + snd (direction_value d))
            = Some (ps1, r', c')" and
    pseq: "ps = (r, c, d) # ps1"
    by (auto split: if_splits option.splits)
  let ?f = "\<lambda>k. (r + int k * fst (direction_value d), c + int k * snd (direction_value d))"
  have "path_coords ps1 = map (\<lambda>k. ?f (Suc k)) [0..<length chars]"
    using Cons.IH[OF rec] by (simp add: algebra_simps)
  also have "\<dots> = map ?f (map Suc [0..<length chars])" by (simp add: comp_def)
  also have "\<dots> = map ?f [Suc 0..<Suc (length chars)]" by (simp only: map_Suc_upt)
  finally have "path_coords ps = ?f 0 # map ?f [Suc 0..<Suc (length chars)]"
    using pseq by (simp add: path_coords_def)
  also have "\<dots> = map ?f [0..<Suc (length chars)]" by (simp add: upt_conv_Cons del: upt_Suc)
  finally show ?case by simp
qed

lemma syllable_positions_distinct:
  assumes "syllable_positions self chars d r c = Some (ps, r', c')"
  shows "distinct (path_coords ps)"
proof -
  let ?f = "\<lambda>k. (r + int k * fst (direction_value d), c + int k * snd (direction_value d))"
  have "inj_on ?f {0..<length chars}"
    by (cases d) (auto simp: inj_on_def)
  then have "distinct (map ?f [0..<length chars])" by (simp add: distinct_map)
  with syllable_positions_coords[OF assms] show ?thesis by simp
qed

text \<open>
  For every word that \<open>generate_puzzle\<close> places, every coordinate of the recorded path
  lies inside the grid.
\<close>

theorem placed_paths_in_bounds:
  assumes "0 < width self" and "0 < height self"
  shows "\<exists>p self' rs'. generate_puzzle self word_list difficulty rs = Inr (p, self', rs')
           \<and> (\<forall>pw \<in> set (placed_words self'). \<forall>seg \<in> set (pw_segments pw).
                 0 \<le> fst (fst seg) \<and> fst (fst seg) < height self
                 \<and> 0 \<le> fst (snd (fst seg)) \<and> fst (snd (fst seg)) < width self)"
proof -
  have "set (py_strip (py_lower w)) \<subseteq> UNIV" for w by simp
  from generate_puzzle_run[OF assms this, of word_list difficulty rs] obtain p self' rs' where
    run: "generate_puzzle self word_list difficulty rs = Inr (p, self', rs')"
      "\<And>pw. pw \<in> set (placed_words self') \<Longrightarrow>
         generated_path self (pw_word_data pw) (map fst (pw_segments pw))"
    by blast
  have "0 \<le> fst (fst seg) \<and> fst (fst seg) < height self
        \<and> 0 \<le> fst (snd (fst seg)) \<and> fst (snd (fst seg)) < width self"
    if "pw \<in> set (placed_words self')" "seg \<in> set (pw_segments pw)" for pw seg
  proof -
    from that(2) have "fst seg \<in> set (map fst (pw_segments pw))" by simp
    with run(2)[OF that(1)] have "valid_cell self (fst seg)" by (rule generated_path_valid)
    then show ?thesis by (rule valid_cell_bounds)
  qed
  with run(1) show ?thesis by blast
qed

theorem placed_paths_in_bounds_witness:
  "0 < width (GridGenerator_init 6 6) \<and> 0 < height (GridGenerator_init 6 6)
   \<and> (\<exists>p self' rs'.
         generate_puzzle (GridGenerator_init 6 6) [''wisdom''] INTERMEDIATE (draws [])
           = Inr (p, self', rs')
         \<and> length (placed_words self') = 1
         \<and> list_all (\<lambda>pw. list_all (\<lambda>seg. 0 \<le> fst (fst seg) \<and> fst (fst seg) < 6
                                          \<and> 0 \<le> fst (snd (fst seg)) \<and> fst (snd (fst seg)) < 6)
                               (pw_segments pw))
             (placed_words self'))"
proof -
  let ?G = "GridGenerator_init 6 6"
  have pos: "0 < width ?G" "0 < height ?G" by (simp_all add: GridGenerator_init_def)
  have ev: "case generate_puzzle ?G [''wisdom''] INTERMEDIATE (draws []) of
              Inl e \<Rightarrow> False | Inr (p, self', rs') \<Rightarrow> length (placed_words self') = 1"
    by code_simp
  from placed_paths_in_bounds[OF pos, of "[''wisdom'']" INTERMEDIATE "draws []"]
  obtain p self' rs' where
    run: "generate_puzzle ?G [''wisdom''] INTERMEDIATE (draws []) = Inr (p, self', rs')" and
    inb: "\<forall>pw \<in> set (placed_words self'). \<forall>seg \<in> set (pw_segments pw).
            0 \<le> fst (fst seg) \<and> fst (fst seg) < height ?G
            \<and> 0 \<le> fst (snd (fst seg)) \<and> fst (snd (fst seg)) < width ?G"
    by blast
  from ev run have one: "length (placed_words self') = 1" by simp
  from inb have "list_all (\<lambda>pw. list_all (\<lambda>seg. 0 \<le> fst (fst seg) \<and> fst (fst seg) < 6
                                          \<and> 0 \<le> fst (snd (fst seg)) \<and> fst (snd (fst seg)) < 6)
                               (pw_segments pw))
             (placed_words self')"
    by (simp add: list_all_iff GridGenerator_init_def)
  with pos run one show ?thesis by blast
qed

text \<open>
  C4. The coordinates of the placement path of a placed word are to lie inside the grid
  and to be pairwise distinct. \<open>GridGenerator\<close> keeps the path inside the grid and keeps
  the cells of one syllable apart, but it lets a later syllable run back over an earlier
  one: with the first draws all zero the word \<open>wisdom\<close> is placed from the top left
  corner, \<open>wis\<close> to the right and \<open>dom\<close> back to the left, and the recorded path visits
  the cells \<open>(0, 2)\<close> and \<open>(0, 1)\<close> twice.
\<close>

theorem placed_path_revisits_cells:
  "(case place_word_in_grid (GridGenerator_init 15 15) (create_word_data ''wisdom'' INTERMEDIATE)
           (draws []) of
      Inr (True, self', rs') \<Rightarrow>
        (case placed_words self' of
           [pw] \<Rightarrow>
             map fst (pw_segments pw)
               = [(0, 0, RIGHT), (0, 1, RIGHT), (0, 2, RIGHT), (0, 3, LEFT), (0, 2, LEFT), (0, 1, LEFT)]
             \<and> \<not> distinct (path_coords (map fst (pw_segments pw)))
         | _ \<Rightarrow> False)
    | _ \<Rightarrow> False)"
  by code_simp

text \<open>
  C6, as the code has it. \<open>GridGenerator\<close> works in lowercase: it lowercases the words
  and fills with the letters \<open>a\<close> to \<open>z\<close>. For words made of letters, the grid that
  \<open>generate_puzzle\<close> returns has the announced shape and no empty cell: each cell holds
  one lowercase letter, and the count of filled cells is the count of all cells,
  \<open>height * width\<close>, so the fill ratio is one.
\<close>

theorem generate_puzzle_grid_full:
  assumes "0 < width self" and "0 < height self"
    and "\<And>w. w \<in> set word_list \<Longrightarrow> set (py_strip (py_lower w)) \<subseteq> lowercase_letters"
  shows "\<exists>p self' rs'. generate_puzzle self word_list difficulty rs = Inr (p, self', rs')
           \<and> rect (pd_grid p) (height self) (width self)
           \<and> cells_full lowercase_letters (pd_grid p)
           \<and> filled_cells (pd_grid p) = total_cells (pd_grid p)
           \<and> total_cells (pd_grid p) = nat (height self) * nat (width self)"
proof -
  from generate_puzzle_run[OF assms, of word_list difficulty rs] obtain p self' rs' where
    run: "generate_puzzle self word_list difficulty rs = Inr (p, self', rs')" and
    g: "pd_grid p = grid self'" and d: "width self' = width self" "height self' = height self" and
    ok: "grid_ok self'" and
    full: "cells_full (lowercase_letters \<union> lowercase_letters) (grid self')"
    by blast
  from ok g d have r: "rect (pd_grid p) (height self) (width self)" by (simp add: grid_ok_def)
  from full g have f: "cells_full lowercase_letters (pd_grid p)" by simp
  from f have "filled_cells (pd_grid p) = total_cells (pd_grid p)" by (rule cells_full_filled)
  moreover from r have "total_cells (pd_grid p) = nat (height self) * nat (width self)"
    by (rule rect_total_cells)
  ultimately show ?thesis using run r f by blast
qed

theorem generate_puzzle_grid_full_witness:
  "0 < width (GridGenerator_init 4 4) \<and> 0 < height (GridGenerator_init 4 4)
   \<and> set (py_strip (py_lower ''Wisdom'')) \<subseteq> lowercase_letters
   \<and> (\<exists>p self' rs'.
         generate_puzzle (GridGenerator_init 4 4) [''Wisdom''] INTERMEDIATE (draws [])
           = Inr (p, self', rs')
         \<and> cells_full lowercase_letters (pd_grid p)
         \<and> filled_cells (pd_grid p) = 16 \<and> total_cells (pd_grid p) = 16)"
proof -
  let ?G = "GridGenerator_init 4 4"
  have pos: "0 < width ?G" "0 < height ?G" by (simp_all add: GridGenerator_init_def)
  have letters: "set (py_strip (py_lower ''Wisdom'')) \<subseteq> lowercase_letters" by code_simp
  then have "\<And>w. w \<in> set [''Wisdom''] \<Longrightarrow> set (py_strip (py_lower w)) \<subseteq> lowercase_letters"
    by simp
  from generate_puzzle_grid_full[OF pos this, where difficulty = INTERMEDIATE and rs = "draws []"]
  obtain p self' rs' where
    "generate_puzzle ?G [''Wisdom''] INTERMEDIATE (draws []) = Inr (p, self', rs')"
    "cells_full lowercase_letters (pd_grid p)"
    "filled_cells (pd_grid p) = total_cells (pd_grid p)"
    "total_cells (pd_grid p) = nat (height ?G) * nat (width ?G)"
    by blast
  moreover have "nat (height ?G) * nat (width ?G) = 16" by (simp add: GridGenerator_init_def)
  ultimately show ?thesis using pos letters by auto
qed

text \<open>
  The claim of C6 fails on the case of the letters: filling the empty four by four grid
  of \<open>GridGenerator\<close> gives sixteen letters, none of them from \<open>A\<close> to \<open>Z\<close>.
\<close>

theorem fill_empty_spaces_lowercase:
  "(case fill_empty_spaces (GridGenerator_init 4 4) (draws []) of
      Inl e \<Rightarrow> False
    | Inr (self', rs') \<Rightarrow>
        grid self' = replicate 4 (replicate 4 ''a'')
        \<and> [] \<notin> set (concat (grid self'))
        \<and> \<not> cells_full uppercase_letters (grid self'))"
  by code_simp

text \<open>
  C1. Reading the grid along the recorded path of a placed word gives the word. The
  engine of \<open>GridGenerator\<close> breaks this where a path runs back over itself:
  \<open>_can_place_word_at_path\<close> compares every cell of the path with the grid as it is
  before the commit, so it does not see the letters the same word is about to write. On
  the empty default grid, with the first draws all zero, \<open>wisdom\<close> is reported as
  placed, and its recorded path reads \<open>wmodom\<close>.
\<close>

theorem placed_wisdom_reads_wmodom:
  "(case place_word_in_grid (GridGenerator_init 15 15) (create_word_data ''wisdom'' INTERMEDIATE)
           (draws []) of
      Inr (True, self', rs') \<Rightarrow>
        (case placed_words self' of
           [pw] \<Rightarrow>
             wd_word (pw_word_data pw) = ''wisdom''
             \<and> path_coords (map fst (pw_segments pw))
                 = [(0, 0), (0, 1), (0, 2), (0, 3), (0, 2), (0, 1)]
             \<and> read_cells (grid self') (path_coords (map fst (pw_segments pw)))
                 = Inr [''w'', ''m'', ''o'', ''d'', ''o'', ''m'']
         | _ \<Rightarrow> False)
    | _ \<Rightarrow> False)"
  by code_simp

text \<open>
  Where the path visits no cell twice, the property holds: after the commit of an accepted
  path the \<open>k\<close>-th cell of the path holds the \<open>k\<close>-th letter of the word.
\<close>

lemma place_word_at_path_reads_word:
  assumes ok: "grid_ok self"
    and acc: "can_place_word_at_path self (wd_word wd) path = Inr True"
    and dist: "distinct (path_coords path)"
    and pl: "place_word_at_path self wd path = Inr (pw, self')"
    and k: "k < length path" and pk: "path ! k = (r, c, d)"
  shows "grid_get (grid self') r c = Inr [wd_word wd ! k]"
proof -
  have rc: "rect (grid self) (height self) (width self)" using ok by (simp add: grid_ok_def)
  have v: "\<And>x. x \<in> set path \<Longrightarrow>
             0 \<le> fst x \<and> fst x < height self \<and> 0 \<le> fst (snd x) \<and> fst (snd x) < width self"
    using can_place_valid_cells[OF acc] by (rule valid_cell_bounds)
  from pl obtain g' segs' where
    l: "place_loop wd 0 path (grid self) [] 0 0 = Inr (g', segs')" and g': "grid self' = g'"
    by (auto simp: place_word_at_path_def split: sum.splits list.splits)
  have len: "0 + length path \<le> length (wd_word wd)"
    using can_place_word_at_path_true(1)[OF acc] by simp
  from place_loop_total[OF rc v len, of "[]" 0 0] l have r': "rect g' (height self) (width self)"
    by auto
  from l rc v dist k pk have w: "g' ! nat r ! nat c = [wd_word wd ! (0 + k)]"
    by (rule place_loop_written)
  from k pk have "(r, c, d) \<in> set path" by (auto simp: in_set_conv_nth)
  from v[OF this] have b: "0 \<le> r" "r < height self" "0 \<le> c" "c < width self" by simp_all
  from grid_get_valid[OF r' b] w g' show ?thesis by simp
qed

section \<open>Directions at syllable boundaries\<close>







text \<open>
  In \<open>KDPWordsearchGenerator._generate_direction_sequence\<close> the candidates are the same
  for every syllable, so a direction can repeat.
\<close>

lemma kdp_direction_can_repeat:
  "(case kdp_generate_direction_sequence [''WIS'', ''DOM''] [''horizontal'', ''vertical''] (draws []) of
      Inr (direction_sequence, rs') \<Rightarrow> direction_sequence = [(1, 0), (1, 0)]
    | Inl e \<Rightarrow> False)"
  by code_simp

section \<open>Crossing words\<close>

text \<open>
  C2. A word is committed only onto cells that are empty or already hold its letter, so
  crossing words agree on the cells they share. \<open>EnhancedKDPGenerator\<close> breaks this:
  \<open>_can_place_syllable_word\<close> and \<open>_place_syllable_word\<close> each draw their own
  directions, so the path that is written is not the path that was checked. On a twelve by
  twelve grid \<open>MINDFULNESS\<close> is placed first and holds \<open>F\<close> at \<open>(1, 3)\<close> and \<open>N\<close> at
  \<open>(3, 4)\<close>. For \<open>AWARENESS\<close> the check walks from \<open>(4, 0)\<close> over empty cells and
  accepts; the commit walks from \<open>(4, 0)\<close> in other directions and overwrites the two
  cells with \<open>R\<close> and \<open>S\<close>.
\<close>

theorem ekdp_place_overwrites_letters:
  "(case ekdp_place_words (map (\<lambda>_. replicate 12 []) (py_range 12))
           [(''MINDFULNESS'', Some [''MIND'', ''FUL'', ''NESS''])] 12 (draws []) of
      Inl e \<Rightarrow> False
    | Inr (g1, rs1) \<Rightarrow>
        read_cells g1 [(0, 0), (0, 1), (0, 2), (0, 3), (1, 3), (2, 3), (3, 3), (3, 4), (3, 5),
                       (3, 6), (3, 7)]
          = Inr [''M'', ''I'', ''N'', ''D'', ''F'', ''U'', ''L'', ''N'', ''E'', ''S'', ''S''])
   \<and> (case ekdp_place_words (map (\<lambda>_. replicate 12 []) (py_range 12))
           [(''MINDFULNESS'', Some [''MIND'', ''FUL'', ''NESS'']),
            (''AWARENESS'', Some [''A'', ''WARE'', ''NESS''])] 12
           (draws [0, 0, 0, 0, 0, 0, 0, 0, 0, 0, 4, 0, 1, 0, 0, 0, 0, 2, 1, 0]) of
      Inl e \<Rightarrow> False
    | Inr (g2, rs2) \<Rightarrow>
        read_cells g2 [(0, 0), (0, 1), (0, 2), (0, 3), (1, 3), (2, 3), (3, 3), (3, 4), (3, 5),
                       (3, 6), (3, 7)]
          = Inr [''M'', ''I'', ''N'', ''D'', ''R'', ''U'', ''L'', ''S'', ''E'', ''S'', ''S''])"
  by code_simp

text \<open>
  \<open>GridGenerator\<close> keeps the second half of the claim: a path is accepted only if each of
  its cells is empty or holds the letter the word has there
  (\<open>can_place_word_at_path_true\<close>), and the commit of an accepted path changes no cell that
  held a letter.
\<close>

lemma place_word_at_path_keeps_letters:
  assumes ok: "grid_ok self"
    and acc: "can_place_word_at_path self (wd_word wd) path = Inr True"
    and pl: "place_word_at_path self wd path = Inr (pw, self')"
    and ab: "a < nat (height self)" "b < nat (width self)" and ne: "grid self ! a ! b \<noteq> []"
  shows "grid self' ! a ! b = grid self ! a ! b"
proof -
  have rc: "rect (grid self) (height self) (width self)" using ok by (simp add: grid_ok_def)
  have v: "\<And>x. x \<in> set path \<Longrightarrow>
             0 \<le> fst x \<and> fst x < height self \<and> 0 \<le> fst (snd x) \<and> fst (snd x) < width self"
    using can_place_valid_cells[OF acc] by (rule valid_cell_bounds)
  from pl obtain g' segs' where
    l: "place_loop wd 0 path (grid self) [] 0 0 = Inr (g', segs')" and g': "grid self' = g'"
    by (auto simp: place_word_at_path_def split: sum.splits list.splits)
  have same: "\<And>a b. a < nat (height self) \<Longrightarrow> b < nat (width self) \<Longrightarrow>
                grid self ! a ! b \<noteq> [] \<Longrightarrow> grid self ! a ! b = grid self ! a ! b"
    by simp
  have cells: "grid self ! nat r ! nat c = [] \<or> grid self ! nat r ! nat c = [wd_word wd ! (0 + k)]"
    if "k < length path" "path ! k = (r, c, d)" for k r c d
  proof -
    from can_place_word_at_path_true(2)[OF acc that]
    have vp: "is_valid_position self r c" and
      g: "grid_get (grid self) r c = Inr [] \<or> grid_get (grid self) r c = Inr [wd_word wd ! k]"
      by simp_all
    from vp have "0 \<le> r" "r < height self" "0 \<le> c" "c < width self"
      by (simp_all add: is_valid_position_def)
    from grid_get_valid[OF rc this] g show ?thesis by simp
  qed
  from l rc v same cells ab ne have "g' ! a ! b = grid self ! a ! b"
    by (rule place_loop_keeps)
  with g' show ?thesis by simp
qed

section \<open>Every call starts afresh\<close>

lemma fill_empty_spaces_fields:
  "fill_empty_spaces self rs = Inr (self', rs') \<Longrightarrow>
   placed_words self' = placed_words self \<and> width self' = width self \<and> height self' = height self"
  by (auto simp: fill_empty_spaces_def split: sum.splits)

lemma place_attempts_positive:
  "place_attempts (Suc n) self wd rs = Inr res \<Longrightarrow> 0 < width self \<and> 0 < height self"
  by (auto simp: py_randint_def split: sum.splits if_splits)

lemma place_words_positive:
  "place_words self (wd # wds) rs = Inr res \<Longrightarrow> 0 < width self \<and> 0 < height self"
proof -
  assume a: "place_words self (wd # wds) rs = Inr res"
  then obtain r where "place_attempts (Suc 99) self wd rs = Inr r"
    by (auto simp: place_word_in_grid_def max_attempts_def split: sum.splits)
  then show ?thesis by (rule place_attempts_positive)
qed

lemma empty_grid_replicate: "empty_grid w h = replicate (nat h) (replicate (nat w) [])"
  by (simp add: empty_grid_def py_range_def map_replicate_const)

text \<open>
  C10. \<open>generate_puzzle\<close> starts every call from a fresh state: whenever it returns, the
  words were placed on a generator whose grid is all empty and whose list of placed words
  is empty, and the result is that placement followed by the fill. So the grid and the
  placed words the generator held before the call have no influence on the result, and
  every placed word in the result is a word of this call.
\<close>

theorem generate_puzzle_resets:
  assumes "generate_puzzle self word_list difficulty rs = Inr (p, self', rs')"
  shows "(\<exists>self1 rs1.
            place_words
              \<lparr>width = width self, height = height self,
                grid = replicate (nat (height self)) (replicate (nat (width self)) []),
                placed_words = []\<rparr>
              (sort_key (\<lambda>w. - int (length (wd_word w)))
                 (map (\<lambda>w. create_word_data w difficulty) word_list)) rs
              = Inr (self1, rs1)
            \<and> fill_empty_spaces self1 rs1 = Inr (self', rs')
            \<and> placed_words self' = placed_words self1)
         \<and> pd_grid p = grid self'
         \<and> pd_placed_words p = map serialize_placed_word (placed_words self')
         \<and> generate_puzzle (self\<lparr>grid := g, placed_words := pws\<rparr>) word_list difficulty rs
             = Inr (p, self', rs')
         \<and> (\<forall>pw \<in> set (placed_words self').
               pw_word_data pw \<in> set (map (\<lambda>w. create_word_data w difficulty) word_list))"
proof -
  let ?wds = "sort_key (\<lambda>w. - int (length (wd_word w)))
                (map (\<lambda>w. create_word_data w difficulty) word_list)"
  let ?fresh = "\<lparr>width = width self, height = height self,
                  grid = replicate (nat (height self)) (replicate (nat (width self)) []),
                  placed_words = []\<rparr>"
  have fresh: "self\<lparr>grid := empty_grid (width self) (height self), placed_words := []\<rparr> = ?fresh"
    by (cases self) (simp add: empty_grid_replicate)
  from assms obtain self1 rs1 where
    pl: "place_words ?fresh ?wds rs = Inr (self1, rs1)" and
    fl: "fill_empty_spaces self1 rs1 = Inr (self', rs')" and
    pg: "pd_grid p = grid self'" and
    pp: "pd_placed_words p = map serialize_placed_word (placed_words self')"
    unfolding generate_puzzle_def Let_def fresh
    by (auto split: sum.splits)
  from fill_empty_spaces_fields[OF fl] have same: "placed_words self' = placed_words self1"
    by simp
  have indep: "generate_puzzle (self\<lparr>grid := g, placed_words := pws\<rparr>) word_list difficulty rs
                 = Inr (p, self', rs')"
    using assms by (simp add: generate_puzzle_def)
  have mem: "pw_word_data pw \<in> set (map (\<lambda>w. create_word_data w difficulty) word_list)"
    if pw: "pw \<in> set (placed_words self')" for pw
  proof (cases word_list)
    case Nil
    with pl have "self1 = ?fresh" by simp
    with same pw show ?thesis by simp
  next
    case (Cons w ws)
    then have "?wds \<noteq> []" by (simp add: sort_key_def)
    then obtain wd wds where "?wds = wd # wds" by (cases ?wds) auto
    with pl have "place_words ?fresh (wd # wds) rs = Inr (self1, rs1)" by simp
    from place_words_positive[OF this] have pos: "0 < width self" "0 < height self" by simp_all
    have "set (py_strip (py_lower w)) \<subseteq> UNIV" for w by simp
    from generate_puzzle_run[OF pos this, of word_list difficulty rs] assms pw
    show ?thesis by auto
  qed
  from pl fl same pg pp indep mem show ?thesis by blast
qed

theorem generate_puzzle_resets_witness:
  "\<exists>p self' rs'.
     generate_puzzle
       \<lparr>width = 4, height = 4, grid = replicate 4 (replicate 4 ''x''),
         placed_words = [\<lparr>pw_word_data = create_word_data ''stale'' EXPERT, pw_segments = [],
                           pw_start_position = (0, 0, RIGHT), pw_total_length = 5\<rparr>]\<rparr>
       [''wisdom''] INTERMEDIATE (draws []) = Inr (p, self', rs')
     \<and> pd_grid p = [[''w'', ''m'', ''o'', ''d''], [''a'', ''a'', ''a'', ''a''],
                      [''a'', ''a'', ''a'', ''a''], [''a'', ''a'', ''a'', ''a'']]
     \<and> map (wd_word \<circ> pw_word_data) (placed_words self') = [''wisdom'']
     \<and> generate_puzzle (GridGenerator_init 4 4) [''wisdom''] INTERMEDIATE (draws [])
         = Inr (p, self', rs')"
proof -
  let ?D = "\<lparr>width = 4, height = 4, grid = replicate 4 (replicate 4 ''x''),
              placed_words = [\<lparr>pw_word_data = create_word_data ''stale'' EXPERT, pw_segments = [],
                                pw_start_position = (0, 0, RIGHT), pw_total_length = 5\<rparr>]\<rparr>"
  have ev: "case generate_puzzle ?D [''wisdom''] INTERMEDIATE (draws []) of
              Inl e \<Rightarrow> False
            | Inr (p, self', rs') \<Rightarrow>
                pd_grid p = [[''w'', ''m'', ''o'', ''d''], [''a'', ''a'', ''a'', ''a''],
                             [''a'', ''a'', ''a'', ''a''], [''a'', ''a'', ''a'', ''a'']]
                \<and> map (wd_word \<circ> pw_word_data) (placed_words self') = [''wisdom'']"
    by code_simp
  then obtain p self' rs' where
    run: "generate_puzzle ?D [''wisdom''] INTERMEDIATE (draws []) = Inr (p, self', rs')" and
    res: "pd_grid p = [[''w'', ''m'', ''o'', ''d''], [''a'', ''a'', ''a'', ''a''],
                       [''a'', ''a'', ''a'', ''a''], [''a'', ''a'', ''a'', ''a'']]"
      "map (wd_word \<circ> pw_word_data) (placed_words self') = [''wisdom'']"
    by (auto split: sum.splits)
  from generate_puzzle_resets[OF run, where g = "empty_grid 4 4" and pws = "[]"]
  have "generate_puzzle (?D\<lparr>grid := empty_grid 4 4, placed_words := []\<rparr>) [''wisdom'']
          INTERMEDIATE (draws []) = Inr (p, self', rs')"
    by blast
  then have fresh: "generate_puzzle (GridGenerator_init 4 4) [''wisdom''] INTERMEDIATE (draws [])
               = Inr (p, self', rs')"
    by (simp add: GridGenerator_init_def)
  show ?thesis
    by (rule exI[of _ p], rule exI[of _ self'], rule exI[of _ rs']) (intro conjI run res fresh)
qed

section \<open>ExpandedWordCanvas: the direction of a later syllable\<close>

lemma list_CanvasDirection_all: "d \<in> set list_CanvasDirection"
  by (cases d) (simp_all add: list_CanvasDirection_def)

lemma get_available_directions_iff:
  "d \<in> set (get_available_directions self row col n)
     \<longleftrightarrow> (\<forall>j<n. canvas_is_valid_position self
                   (row + fst (canvas_direction_value d) * int j)
                   (col + snd (canvas_direction_value d) * int j))"
  by (auto simp: get_available_directions_def list_CanvasDirection_all list_all_iff)

lemma py_choice_can_draw:
  assumes "d \<in> set xs"
  shows "\<exists>x. py_choice xs (draws [x]) = Inr (d, draws [])"
proof -
  from assms obtain x where x: "x < length xs" "xs ! x = d" by (auto simp: in_set_conv_nth)
  have "rng_tail (draws [x]) = draws []" by (rule ext) (simp add: rng_tail_def)
  with x assms have "py_choice xs (draws [x]) = Inr (d, draws [])"
    by (auto simp: py_choice_def rng_head_def)
  then show ?thesis ..
qed

lemma canvas_syllable_positions_cells:
  "canvas_syllable_positions self chars d r c = Inr (Some ps) \<Longrightarrow>
   ps = map (\<lambda>j. (r + fst (canvas_direction_value d) * int j,
                    c + snd (canvas_direction_value d) * int j, [chars ! j]))
          [0..<length chars]"
proof (induction chars arbitrary: r c ps)
  case Nil
  then show ?case by simp
next
  case (Cons ch chars)
  from Cons.prems obtain ps1 where
    rec: "canvas_syllable_positions self chars d (r + fst (canvas_direction_value d))
            (c + snd (canvas_direction_value d)) = Inr (Some ps1)" and
    pseq: "ps = (r, c, [ch]) # ps1"
    by (auto split: if_splits sum.splits option.splits)
  let ?f = "\<lambda>j. (r + fst (canvas_direction_value d) * int j,
                  c + snd (canvas_direction_value d) * int j, [(ch # chars) ! j])"
  have "ps1 = map (\<lambda>j. ?f (Suc j)) [0..<length chars]"
    using Cons.IH[OF rec] by (simp add: algebra_simps)
  also have "\<dots> = map ?f (map Suc [0..<length chars])" by (simp add: comp_def)
  also have "\<dots> = map ?f [Suc 0..<Suc (length chars)]" by (simp only: map_Suc_upt)
  finally have "ps = ?f 0 # map ?f [Suc 0..<Suc (length chars)]"
    using pseq by simp
  also have "\<dots> = map ?f [0..<Suc (length chars)]" by (simp add: upt_conv_Cons del: upt_Suc)
  finally show ?case by simp
qed

lemma canvas_next_position:
  assumes "canvas_syllable_positions self chars d r c = Inr (Some ps)"
  shows "(if ps \<noteq> [] then
            (fst (last ps) + fst (canvas_direction_value d),
             fst (snd (last ps)) + snd (canvas_direction_value d))
          else (r, c))
         = (r + int (length chars) * fst (canvas_direction_value d),
            c + int (length chars) * snd (canvas_direction_value d))"
proof (cases chars)
  case Nil
  with assms show ?thesis by simp
next
  case (Cons ch rest)
  let ?f = "\<lambda>j. (r + fst (canvas_direction_value d) * int j,
                  c + snd (canvas_direction_value d) * int j, [chars ! j])"
  from canvas_syllable_positions_cells[OF assms] have ps: "ps = map ?f [0..<length chars]" .
  from Cons have ne: "[0..<length chars] \<noteq> []" by simp
  from ps ne have "last ps = ?f (last [0..<length chars])" by (simp add: last_map)
  also from Cons have "last [0..<length chars] = length rest" by simp
  finally have l: "last ps = ?f (length rest)" .
  from ps ne have "ps \<noteq> []" by simp
  with l Cons show ?thesis by (simp add: algebra_simps)
qed

lemma segments_chain_Cons:
  assumes rec: "segments_chain self (Suc i) r1 c1 rest new1"
    and syl: "seg_syllable seg = syl" and st: "seg_start_pos seg = (r, c)"
    and nxt: "r1 = r + int (length syl) * fst (canvas_direction_value (seg_direction seg))"
             "c1 = c + int (length syl) * snd (canvas_direction_value (seg_direction seg))"
    and av: "0 < i \<Longrightarrow> seg_direction seg \<in> set (get_available_directions self r c (length syl))"
  shows "segments_chain self i r c (syl # rest) (seg # new1)"
  unfolding segments_chain_def
proof (intro conjI allI impI)
  from rec show "length (seg # new1) = length (syl # rest)" by (simp add: segments_chain_def)
next
  fix j assume "j < length (syl # rest)"
  with rec syl show "seg_syllable ((seg # new1) ! j) = (syl # rest) ! j"
    by (cases j) (simp_all add: segments_chain_def)
next
  from st show "seg_start_pos ((seg # new1) ! 0) = (r, c)" by simp
next
  fix j assume j: "Suc j < length (syl # rest)"
  show "seg_start_pos ((seg # new1) ! Suc j)
          = (fst (seg_start_pos ((seg # new1) ! j))
               + int (length (seg_syllable ((seg # new1) ! j)))
                 * fst (canvas_direction_value (seg_direction ((seg # new1) ! j))),
             snd (seg_start_pos ((seg # new1) ! j))
               + int (length (seg_syllable ((seg # new1) ! j)))
                 * snd (canvas_direction_value (seg_direction ((seg # new1) ! j))))"
  proof (cases j)
    case 0
    with j have "rest \<noteq> []" by auto
    with rec have "seg_start_pos (new1 ! 0) = (r1, c1)" by (simp add: segments_chain_def)
    with 0 syl st nxt show ?thesis by simp
  next
    case (Suc j')
    with j have "Suc j' < length rest" by simp
    with rec Suc show ?thesis by (simp add: segments_chain_def)
  qed
next
  fix j assume j: "j < length (syl # rest)" and pos: "0 < i + j"
  show "seg_direction ((seg # new1) ! j)
          \<in> set (get_available_directions self
                   (fst (seg_start_pos ((seg # new1) ! j))) (snd (seg_start_pos ((seg # new1) ! j)))
                   (length (seg_syllable ((seg # new1) ! j))))"
  proof (cases j)
    case 0
    with pos have "0 < i" by simp
    from av[OF this] 0 syl st show ?thesis by simp
  next
    case (Suc j')
    with j have j': "j' < length rest" by simp
    from rec have "\<forall>j < length rest. 0 < Suc i + j \<longrightarrow>
             seg_direction (new1 ! j)
               \<in> set (get_available_directions self
                        (fst (seg_start_pos (new1 ! j))) (snd (seg_start_pos (new1 ! j)))
                        (length (seg_syllable (new1 ! j))))"
      unfolding segments_chain_def by blast
    from this[rule_format, OF j'] Suc show ?thesis by simp
  qed
qed

lemma attempt_loop_ConsE:
  assumes "attempt_loop self (syl # rest) i segs pos r c rs = Inr (Some res, rs')"
  obtains d rs1 ps where
    "py_choice (if i = 0 then list_CanvasDirection
                else get_available_directions self r c (length syl)) rs = Inr (d, rs1)"
    "canvas_syllable_positions self syl d r c = Inr (Some ps)"
    "attempt_loop self rest (Suc i)
       (segs @ [\<lparr>seg_syllable = syl, seg_start_pos = (r, c), seg_direction = d, seg_letters = ps\<rparr>])
       (pos @ map (\<lambda>p. (fst p, fst (snd p))) ps)
       (r + int (length syl) * fst (canvas_direction_value d))
       (c + int (length syl) * snd (canvas_direction_value d)) rs1 = Inr (Some res, rs')"
proof -
  let ?av = "if i = 0 then list_CanvasDirection
             else get_available_directions self r c (length syl)"
  from assms obtain d rs1 where ch: "py_choice ?av rs = Inr (d, rs1)"
    by (cases "py_choice ?av rs") (auto simp: Let_def split: if_splits)
  from assms ch obtain ps where sp: "canvas_syllable_positions self syl d r c = Inr (Some ps)"
    by (cases "canvas_syllable_positions self syl d r c")
       (auto simp: Let_def split: if_splits option.splits)
  note nx = canvas_next_position[OF sp]
  from assms ch sp have
    "attempt_loop self rest (Suc i)
       (segs @ [\<lparr>seg_syllable = syl, seg_start_pos = (r, c), seg_direction = d, seg_letters = ps\<rparr>])
       (pos @ map (\<lambda>p. (fst p, fst (snd p))) ps)
       (r + int (length syl) * fst (canvas_direction_value d))
       (c + int (length syl) * snd (canvas_direction_value d)) rs1 = Inr (Some res, rs')"
    by (simp add: Let_def nx split: if_splits)
  with ch sp show ?thesis by (rule that)
qed

lemma attempt_loop_segments:
  "attempt_loop self syls i segs pos r c rs = Inr (Some (segs', pos'), rs') \<Longrightarrow>
   \<exists>new. segs' = segs @ new \<and> segments_chain self i r c syls new"
proof (induction syls arbitrary: i segs pos r c rs)
  case Nil
  then show ?case by (simp add: segments_chain_def)
next
  case (Cons syl rest)
  from Cons.prems obtain d rs1 ps where
    ch: "py_choice (if i = 0 then list_CanvasDirection
                    else get_available_directions self r c (length syl)) rs = Inr (d, rs1)" and
    rec: "attempt_loop self rest (Suc i)
       (segs @ [\<lparr>seg_syllable = syl, seg_start_pos = (r, c), seg_direction = d, seg_letters = ps\<rparr>])
       (pos @ map (\<lambda>p. (fst p, fst (snd p))) ps)
       (r + int (length syl) * fst (canvas_direction_value d))
       (c + int (length syl) * snd (canvas_direction_value d)) rs1 = Inr (Some (segs', pos'), rs')"
    by (rule attempt_loop_ConsE)
  let ?seg = "\<lparr>seg_syllable = syl, seg_start_pos = (r, c), seg_direction = d, seg_letters = ps\<rparr>"
  from Cons.IH[OF rec] obtain new1 where
    n1: "segs' = (segs @ [?seg]) @ new1"
        "segments_chain self (Suc i) (r + int (length syl) * fst (canvas_direction_value d))
           (c + int (length syl) * snd (canvas_direction_value d)) rest new1"
    by blast
  have av: "d \<in> set (get_available_directions self r c (length syl))" if "0 < i"
    using py_choice_member[OF ch] that by simp
  have "segments_chain self i r c (syl # rest) (?seg # new1)"
    using n1(2) by (rule segments_chain_Cons) (simp_all add: av)
  with n1(1) show ?case by simp
qed


lemma rng_tail_draws_Nil: "rng_tail (draws []) = draws []"
  by (rule ext) (simp add: rng_tail_def)

lemma py_choice_first:
  "py_choice (x # xs) (draws []) = Inr (x, draws [])"
  by (simp add: py_choice_def rng_head_def rng_tail_draws_Nil)

lemma get_available_directions_horizontal:
  assumes "0 \<le> r" and "r < rows self" and "0 \<le> c" and "c + int n \<le> cols self"
  shows "\<exists>ds. get_available_directions self r c n = HORIZONTAL # ds"
proof -
  have "list_all (\<lambda>i. canvas_is_valid_position self
                         (r + fst (canvas_direction_value HORIZONTAL) * int i)
                         (c + snd (canvas_direction_value HORIZONTAL) * int i)) [0..<n]"
    using assms by (auto simp: list_all_iff canvas_is_valid_position_def)
  then show ?thesis
    by (simp add: get_available_directions_def list_CanvasDirection_def)
qed

lemma canvas_positions_horizontal:
  assumes "canvas_grid self = empty_grid (cols self) (rows self)"
    and "0 \<le> r" and "r < rows self" and "0 \<le> c" and "c + int (length chars) \<le> cols self"
  shows "\<exists>ps. canvas_syllable_positions self chars HORIZONTAL r c = Inr (Some ps)"
  using assms(4,5)
proof (induction chars arbitrary: c)
  case Nil
  show ?case by simp
next
  case (Cons ch chars)
  from Cons.prems have c: "0 \<le> c" "c < cols self" by simp_all
  with assms(2,3) have v: "canvas_is_valid_position self r c"
    by (simp add: canvas_is_valid_position_def)
  have "rect (canvas_grid self) (rows self) (cols self)"
    unfolding assms(1) by (rule empty_grid_rect)
  from grid_get_valid[OF this assms(2,3) c]
  have "grid_get (canvas_grid self) r c = Inr (canvas_grid self ! nat r ! nat c)" .
  also have "canvas_grid self ! nat r ! nat c = []"
    using assms(2,3) c by (simp add: assms(1) empty_grid_replicate)
  finally have g: "grid_get (canvas_grid self) r c = Inr []" .
  from Cons.prems have "0 \<le> c + 1" "c + 1 + int (length chars) \<le> cols self" by simp_all
  from Cons.IH[OF this] obtain ps where
    "canvas_syllable_positions self chars HORIZONTAL r (c + 1) = Inr (Some ps)" by blast
  with v g show ?case by simp
qed

lemma attempt_loop_horizontal:
  assumes "canvas_grid self = empty_grid (cols self) (rows self)"
    and "0 \<le> r" and "r < rows self"
  shows "0 \<le> c \<Longrightarrow> c + int (length (concat syls)) \<le> cols self \<Longrightarrow>
         \<exists>segs' pos'. attempt_loop self syls i segs pos r c (draws [])
                         = Inr (Some (segs', pos'), draws [])
           \<and> map seg_direction segs'
               = map seg_direction segs @ replicate (length syls) HORIZONTAL"
proof (induction syls arbitrary: i segs pos c)
  case Nil
  show ?case by simp
next
  case (Cons syl rest)
  let ?av = "if i = 0 then list_CanvasDirection
             else get_available_directions self r c (length syl)"
  from Cons.prems have fit: "c + int (length syl) \<le> cols self" by simp
  from get_available_directions_horizontal[OF assms(2,3) Cons.prems(1) fit]
  have "\<exists>ds. ?av = HORIZONTAL # ds" by (cases "i = 0") (simp_all add: list_CanvasDirection_def)
  then obtain ds where "?av = HORIZONTAL # ds" ..
  then have ne: "?av \<noteq> []" and ch: "py_choice ?av (draws []) = Inr (HORIZONTAL, draws [])"
    by (simp_all only: py_choice_first list.distinct not_False_eq_True)
  from canvas_positions_horizontal[OF assms Cons.prems(1) fit] obtain ps where
    sp: "canvas_syllable_positions self syl HORIZONTAL r c = Inr (Some ps)" by blast
  note nx = canvas_next_position[OF sp]
  let ?seg = "\<lparr>seg_syllable = syl, seg_start_pos = (r, c), seg_direction = HORIZONTAL,
                 seg_letters = ps\<rparr>"
  have step: "attempt_loop self (syl # rest) i segs pos r c (draws [])
          = attempt_loop self rest (Suc i) (segs @ [?seg])
              (pos @ map (\<lambda>p. (fst p, fst (snd p))) ps) r (c + int (length syl)) (draws [])"
    using ne ch sp by (simp add: Let_def nx)
  from Cons.prems have "0 \<le> c + int (length syl)"
    "c + int (length syl) + int (length (concat rest)) \<le> cols self" by simp_all
  from Cons.IH[OF this, of "Suc i" "segs @ [?seg]" "pos @ map (\<lambda>p. (fst p, fst (snd p))) ps"]
  obtain segs' pos' where
    run: "attempt_loop self rest (Suc i) (segs @ [?seg])
        (pos @ map (\<lambda>p. (fst p, fst (snd p))) ps) r (c + int (length syl)) (draws [])
       = Inr (Some (segs', pos'), draws [])" and
    dirs: "map seg_direction segs'
       = map seg_direction (segs @ [?seg]) @ replicate (length rest) HORIZONTAL"
    by blast
  from run have a: "attempt_loop self (syl # rest) i segs pos r c (draws [])
                      = Inr (Some (segs', pos'), draws [])"
    by (simp only: step)
  from dirs have b: "map seg_direction segs'
                       = map seg_direction segs @ replicate (length (syl # rest)) HORIZONTAL"
    by simp
  from a b show ?case by blast
qed

lemma attempt_syllable_placement_horizontal:
  assumes "canvas_grid self = empty_grid (cols self) (rows self)"
    and "0 \<le> r" and "r < rows self" and "0 \<le> c"
    and "c + int (length (concat (cw_syllables wd))) \<le> cols self"
  shows "\<exists>pw rs'. attempt_syllable_placement self wd r c (draws []) = Inr (Some pw, rs')
           \<and> map seg_direction (cp_segments pw)
               = replicate (length (cw_syllables wd)) HORIZONTAL"
proof -
  from attempt_loop_horizontal[OF assms, of 0 "[]" "[]"] obtain segs' pos' where
    "attempt_loop self (cw_syllables wd) 0 [] [] r c (draws []) = Inr (Some (segs', pos'), draws [])"
    "map seg_direction segs' = replicate (length (cw_syllables wd)) HORIZONTAL"
    by auto
  then show ?thesis by (simp add: attempt_syllable_placement_def)
qed

lemma attempt_syllable_placement_segments:
  assumes "attempt_syllable_placement self wd r c rs = Inr (Some pw, rs')"
  shows "segments_chain self 0 r c (cw_syllables wd) (cp_segments pw)"
proof -
  from assms obtain segs' pos' where
    run: "attempt_loop self (cw_syllables wd) 0 [] [] r c rs = Inr (Some (segs', pos'), rs')" and
    pw: "cp_segments pw = segs'"
    by (auto simp: attempt_syllable_placement_def split: sum.splits option.splits prod.splits)
  from attempt_loop_segments[OF run] pw show ?thesis by simp
qed

end
